theory Spec2Isabelle
  imports Main
begin

section \<open>Go values: bytes, indices, panics\<close>

text \<open>
  A Go \<open>string\<close> and a \<open>[]byte\<close> are sequences of bytes: here \<open>string\<close>, a list of
  8-bit \<open>char\<close>s. A Go \<open>int\<close> is modelled by \<open>int\<close>: every index of the case
  conversion functions stays between \<open>-1\<close> and the length of its input plus one, so
  no 64-bit overflow is reachable there; where an overflow is reachable (the
  placeholder numbers) the wrap-around is written out with \<open>int64\<close>.
  A run-time panic is a value: every function returns \<open>panic + result\<close>.
\<close>

datatype panic = IndexOutOfRange | SliceBoundsOutOfRange | PanicMsg string

abbreviation byte :: "char \<Rightarrow> int" where
  "byte c \<equiv> of_char c"

text \<open>\<open>c - k\<close> on a \<open>byte\<close>: unsigned 8-bit subtraction (\<open>char_of\<close> keeps the low 8 bits).\<close>

definition byteSub :: "char \<Rightarrow> int \<Rightarrow> char" where
  "byteSub c k = char_of (byte c - k)"

text \<open>\<open>s[i]\<close>: panics unless \<open>0 \<le> i < len(s)\<close>.\<close>

definition index :: "string \<Rightarrow> int \<Rightarrow> panic + char" where
  "index s i = (if 0 \<le> i \<and> i < int (length s) then Inr (s ! nat i) else Inl IndexOutOfRange)"

text \<open>
  \<open>s[lo:hi]\<close>: panics unless \<open>0 \<le> lo \<le> hi \<le> len(s)\<close>. (For a \<open>[]byte\<close> Go checks
  \<open>hi\<close> against the capacity, which is at least the length: the model is the stricter.)
\<close>

definition slice :: "string \<Rightarrow> int \<Rightarrow> int \<Rightarrow> panic + string" where
  "slice s lo hi =
     (if 0 \<le> lo \<and> lo \<le> hi \<and> hi \<le> int (length s)
      then Inr (take (nat (hi - lo)) (drop (nat lo) s))
      else Inl SliceBoundsOutOfRange)"

section \<open>The process state: result cache, buffer pool, standard output\<close>

text \<open>
  A \<open>bytes.Buffer\<close> handed out by the pool: its bytes, and the number of the lease
  under which its holder has it. The state of the process is the result cache of
  TitleCase, the pool (the number of leases given so far and a log of every
  acquisition, every access to a buffer, write or read, and every release, each with
  its lease), and what has been printed.
\<close>

record buffer =
  lease :: nat
  bytes :: string

datatype poolEvent = Acquire nat | Access nat | Release nat

record world =
  titleCaseCache :: "string \<rightharpoonup> string"
  leases :: nat
  poolLog :: "poolEvent list"
  stdout :: string

definition initWorld :: world where
  "initWorld = \<lparr>titleCaseCache = Map.empty, leases = 0, poolLog = [], stdout = []\<rparr>"

text \<open>
  Modelled from the spec: \<open>GetBuffer\<close>, the pool's \<open>acquire() -> growable byte buffer\<close>,
  which is declared outside \<open>strmangle.go\<close>. Each call owns its own buffer instance for
  its duration: an acquisition hands out an empty buffer under a new lease.
\<close>

definition GetBuffer :: "world \<Rightarrow> buffer \<times> world" where
  "GetBuffer w =
     (\<lparr>lease = leases w, bytes = []\<rparr>,
      w\<lparr>leases := Suc (leases w), poolLog := poolLog w @ [Acquire (leases w)]\<rparr>)"

text \<open>
  Modelled from the spec: \<open>PutBuffer\<close>, the pool's \<open>release(buffer)\<close>, which is declared
  outside \<open>strmangle.go\<close>. The release ends the lease; it leaves the bytes of the buffer
  as they are, and in a sequential run nothing else writes to them afterwards.
\<close>

definition PutBuffer :: "buffer \<Rightarrow> world \<Rightarrow> world" where
  "PutBuffer buf w = w\<lparr>poolLog := poolLog w @ [Release (lease buf)]\<rparr>"

text \<open>The methods of \<open>bytes.Buffer\<close> the code uses; the buffer is threaded with the state.\<close>

definition bufWriteByte :: "char \<Rightarrow> buffer \<times> world \<Rightarrow> buffer \<times> world" where
  "bufWriteByte c bw =
     (case bw of (buf, w) \<Rightarrow>
        (buf\<lparr>bytes := bytes buf @ [c]\<rparr>, w\<lparr>poolLog := poolLog w @ [Access (lease buf)]\<rparr>))"

definition bufWrite :: "string \<Rightarrow> buffer \<times> world \<Rightarrow> buffer \<times> world" where
  "bufWrite s bw =
     (case bw of (buf, w) \<Rightarrow>
        (buf\<lparr>bytes := bytes buf @ s\<rparr>, w\<lparr>poolLog := poolLog w @ [Access (lease buf)]\<rparr>))"

definition bufString :: "buffer \<Rightarrow> world \<Rightarrow> string \<times> world" where
  "bufString buf w = (bytes buf, w\<lparr>poolLog := poolLog w @ [Access (lease buf)]\<rparr>)"

section \<open>TitleCase\<close>

definition uppercaseWords :: "string \<rightharpoonup> unit" where
  "uppercaseWords = [''guid'' \<mapsto> (), ''id'' \<mapsto> (), ''uid'' \<mapsto> (), ''uuid'' \<mapsto> ()]"

text \<open>
  Lines 201-210: the scan of a word, \<open>for i, c := range word\<close>, carrying \<open>vowels\<close> and
  \<open>numStart\<close>; \<open>numStart == wordLen\<close> is the code's mark for "no digit seen yet".
\<close>

fun titleCaseScan :: "string \<Rightarrow> int \<Rightarrow> int \<Rightarrow> bool \<times> int \<Rightarrow> bool \<times> int" where
  "titleCaseScan [] i wordLen (vowels, numStart) = (vowels, numStart)"
| "titleCaseScan (c # cs) i wordLen (vowels, numStart) =
     titleCaseScan cs (i + 1) wordLen
       (vowels \<or> (byte c = 97 \<or> byte c = 101 \<or> byte c = 105 \<or> byte c = 111
                   \<or> byte c = 117 \<or> byte c = 121),
        if byte c > 47 \<and> byte c < 58 \<and> numStart = wordLen then i else numStart)"

text \<open>Lines 212-214: the test \<open>match || !vowels\<close> that selects the all-uppercase branch.\<close>

definition titleCaseAcronym :: "string \<Rightarrow> panic + bool" where
  "titleCaseAcronym word =
     (let wordLen = int (length word) in
      case titleCaseScan word 0 wordLen (False, wordLen) of (vowels, numStart) \<Rightarrow>
        (case slice word 0 numStart of
           Inl e \<Rightarrow> Inl e
         | Inr prefix \<Rightarrow> Inr (uppercaseWords prefix \<noteq> None \<or> \<not> vowels)))"

text \<open>Lines 216-222: one step of the loop that uppercases all a-z characters.\<close>

definition titleCaseUpper :: "char \<Rightarrow> buffer \<times> world \<Rightarrow> buffer \<times> world" where
  "titleCaseUpper c bw =
     (if byte c > 96 \<and> byte c < 123 then bufWriteByte (byteSub c 32) bw
      else bufWriteByte c bw)"

text \<open>Lines 199-230: rendering one word into the buffer.\<close>

definition titleCaseWord :: "string \<Rightarrow> buffer \<times> world \<Rightarrow> panic + (buffer \<times> world)" where
  "titleCaseWord word bw =
     (case titleCaseAcronym word of
        Inl e \<Rightarrow> Inl e
      | Inr True \<Rightarrow> Inr (fold titleCaseUpper word bw)
      | Inr False \<Rightarrow>
          (case index word 0 of
             Inl e \<Rightarrow> Inl e
           | Inr c \<Rightarrow>
               if byte c > 96 \<and> byte c < 123
               then (case slice word 1 (int (length word)) of
                       Inl e \<Rightarrow> Inl e
                     | Inr rest \<Rightarrow> Inr (bufWrite rest (bufWriteByte (byteSub c 32) bw)))
               else Inr (bufWrite word bw)))"

text \<open>
  Lines 186-197: the cursor moves that end in \<open>continue\<close>. \<open>Some (start', end')\<close> are
  the cursors the loop continues with; \<open>None\<close> falls through to the word at
  \<open>name[start:end]\<close>.
\<close>

definition titleCaseAdvance :: "string \<Rightarrow> int \<Rightarrow> int \<Rightarrow> panic + (int \<times> int) option" where
  "titleCaseAdvance name start end' =
     (if end' < int (length name) then
        (case index name start of
           Inl e \<Rightarrow> Inl e
         | Inr cs \<Rightarrow>
             if cs = CHR ''_'' then Inr (Some (start + 1, end' + 1))
             else (case index name end' of
                     Inl e \<Rightarrow> Inl e
                   | Inr ce \<Rightarrow> if ce \<noteq> CHR ''_'' then Inr (Some (start, end' + 1)) else Inr None))
      else Inr None)"

text \<open>The body of one fall-through iteration: slice the word, render it.\<close>

definition titleCaseEmit ::
  "string \<Rightarrow> int \<Rightarrow> int \<Rightarrow> buffer \<times> world \<Rightarrow> panic + (buffer \<times> world)" where
  "titleCaseEmit name start end' bw =
     (case slice name start end' of
        Inl e \<Rightarrow> Inl e
      | Inr word \<Rightarrow> titleCaseWord word bw)"

text \<open>Lines 181-234: the loop \<open>for start < ln\<close>.\<close>

function titleCaseLoop ::
  "string \<Rightarrow> int \<Rightarrow> int \<Rightarrow> buffer \<times> world \<Rightarrow> panic + (buffer \<times> world)" where
  "titleCaseLoop name start end' bw =
     (if \<not> start < int (length name) then Inr bw
      else
        (case titleCaseAdvance name start end' of
           Inl e \<Rightarrow> Inl e
         | Inr (Some (start', end'')) \<Rightarrow> titleCaseLoop name start' end'' bw
         | Inr None \<Rightarrow>
             (case titleCaseEmit name start end' bw of
                Inl e \<Rightarrow> Inl e
              | Inr bw' \<Rightarrow> titleCaseLoop name (end' + 1) (end' + 1) bw')))"
  by pat_completeness auto
termination
  apply (relation "measure (\<lambda>(name, start, end', bw).
         nat (int (length name) - start) + nat (int (length name) - end'))")
  subgoal by simp
  subgoal by (auto simp: titleCaseEmit_def slice_def split: if_splits sum.splits)
  subgoal by (auto simp: titleCaseAdvance_def split: if_splits sum.splits)
  done

declare titleCaseLoop.simps [simp del]

text \<open>
  The cursor pairs \<open>(start, end)\<close> at which the loop stands on the input \<open>name\<close>: the
  initial pair, and from a pair inside the input the pair after a \<open>continue\<close> or after
  a word.
\<close>

inductive titleCaseVisits :: "string \<Rightarrow> int \<Rightarrow> int \<Rightarrow> bool" for name :: string where
  first: "titleCaseVisits name 0 0"
| continue:
    "titleCaseVisits name s e \<Longrightarrow> s < int (length name) \<Longrightarrow>
     titleCaseAdvance name s e = Inr (Some (s', e')) \<Longrightarrow> titleCaseVisits name s' e'"
| word:
    "titleCaseVisits name s e \<Longrightarrow> s < int (length name) \<Longrightarrow>
     titleCaseAdvance name s e = Inr None \<Longrightarrow> titleCaseVisits name (e + 1) (e + 1)"

text \<open>Lines 168-245.\<close>

definition TitleCase :: "string \<Rightarrow> world \<Rightarrow> panic + (string \<times> world)" where
  "TitleCase n w =
     (case titleCaseCache w n of
        Some val \<Rightarrow> Inr (val, w)
      | None \<Rightarrow>
          (case titleCaseLoop n 0 0 (GetBuffer w) of
             Inl e \<Rightarrow> Inl e
           | Inr (buf, w2) \<Rightarrow>
               (case bufString buf w2 of (ret, w3) \<Rightarrow>
                  Inr (ret, (PutBuffer buf w3)\<lparr>titleCaseCache := (titleCaseCache w3)(n \<mapsto> ret)\<rparr>))))"

text \<open>The returned string alone, for comparing results.\<close>

definition returned :: "panic + ('a \<times> world) \<Rightarrow> panic + 'a" where
  "returned r = map_sum id fst r"

section \<open>CamelCase\<close>

text \<open>
  Lines 255-261 and 269-275: \<open>index := -1; for i := 0; i < len(name); i++\<close>, leaving
  in \<open>index\<close> the first \<open>i\<close> whose byte passes the test, or \<open>-1\<close>.
\<close>

function camelCaseScan :: "(char \<Rightarrow> bool) \<Rightarrow> string \<Rightarrow> int \<Rightarrow> panic + int" where
  "camelCaseScan test name i =
     (if i < int (length name) then
        (case index name i of
           Inl e \<Rightarrow> Inl e
         | Inr c \<Rightarrow> if test c then Inr i else camelCaseScan test name (i + 1))
      else Inr (- 1))"
  by pat_completeness auto
termination
  by (relation "measure (\<lambda>(test, name, i). nat (int (length name) - i))") auto

declare camelCaseScan.simps [simp del]

text \<open>Lines 277-282: what is written to the buffer once the leading underscores are gone.\<close>

definition camelCaseWrite ::
  "string \<Rightarrow> int \<Rightarrow> buffer \<times> world \<Rightarrow> panic + (buffer \<times> world)" where
  "camelCaseWrite name idx bw =
     (if idx = - 1 then Inr (bufWrite name bw)
      else
        (case slice name 0 idx of
           Inl e \<Rightarrow> Inl e
         | Inr first \<Rightarrow>
             (case bufWrite first bw of (buf, w) \<Rightarrow>
                (case slice name (idx + 1) (int (length name)) of
                   Inl e \<Rightarrow> Inl e
                 | Inr rest \<Rightarrow>
                     (case TitleCase rest w of
                        Inl e \<Rightarrow> Inl e
                      | Inr (titled, w') \<Rightarrow> Inr (bufWrite titled (buf, w')))))))"

text \<open>
  Lines 251-285. \<open>defer PutBuffer(buf)\<close> runs after the returned string has been
  read, on both returns.
\<close>

definition CamelCase :: "string \<Rightarrow> world \<Rightarrow> panic + (string \<times> world)" where
  "CamelCase name w =
     (case GetBuffer w of (buf, w1) \<Rightarrow>
        (case camelCaseScan (\<lambda>c. c \<noteq> CHR ''_'') name 0 of
           Inl e \<Rightarrow> Inl e
         | Inr idx \<Rightarrow>
             if idx \<noteq> - 1 then
               (case slice name idx (int (length name)) of
                  Inl e \<Rightarrow> Inl e
                | Inr name' \<Rightarrow>
                    (case camelCaseScan (\<lambda>c. c = CHR ''_'') name' 0 of
                       Inl e \<Rightarrow> Inl e
                     | Inr idx' \<Rightarrow>
                         (case camelCaseWrite name' idx' (buf, w1) of
                            Inl e \<Rightarrow> Inl e
                          | Inr (buf2, w2) \<Rightarrow>
                              (case bufString buf2 w2 of (ret, w3) \<Rightarrow>
                                 Inr (ret, PutBuffer buf2 w3)))))
             else Inr ([], PutBuffer buf w1)))"

section \<open>TitleCaseIdentifier\<close>

text \<open>\<open>strings.IndexByte\<close>: the index of the first \<open>c\<close> in \<open>s\<close>, or \<open>-1\<close>.\<close>

definition IndexByte :: "string \<Rightarrow> char \<Rightarrow> int" where
  "IndexByte s c =
     (if c \<in> set s then int (length (takeWhile (\<lambda>x. x \<noteq> c) s)) else - 1)"

text \<open>\<open>%d\<close> of \<open>fmt\<close>: a decimal numeral, with a minus sign when negative.\<close>

fun decimal :: "nat \<Rightarrow> string" where
  "decimal n =
     (if n < 10 then [char_of (48 + n)]
      else decimal (n div 10) @ [char_of (48 + n mod 10)])"

declare decimal.simps [simp del]

definition formatInt :: "int \<Rightarrow> string" where
  "formatInt n = (if n < 0 then CHR ''-'' # decimal (nat (- n)) else decimal (nat n))"

text \<open>Line 301, the debugging print: \<open>fmt.Println(lastDot, nextDot)\<close>.\<close>

definition Println2 :: "int \<Rightarrow> int \<Rightarrow> world \<Rightarrow> world" where
  "Println2 a b w = w\<lparr>stdout := stdout w @ formatInt a @ '' '' @ formatInt b @ [CHR 0x0A]\<rparr>"

text \<open>
  Lines 301-321: one iteration of the loop. The result is the buffer and state after
  it, with \<open>None\<close> when the iteration ends in \<open>break\<close> and \<open>Some (lastDot, nextDot)\<close>
  for the next iteration otherwise.
\<close>

definition titleCaseIdentifierStep ::
  "string \<Rightarrow> int \<Rightarrow> int \<Rightarrow> bool \<Rightarrow> buffer \<times> world \<Rightarrow>
     panic + ((buffer \<times> world) \<times> (int \<times> int) option)" where
  "titleCaseIdentifierStep ident lastDot nextDot addDots bw =
     (case bw of (buf, w) \<Rightarrow>
        (case slice ident lastDot nextDot of
           Inl e \<Rightarrow> Inl e
         | Inr fragment \<Rightarrow>
             (case TitleCase fragment (Println2 lastDot nextDot w) of
                Inl e \<Rightarrow> Inl e
              | Inr (titled, w') \<Rightarrow>
                  (let bw' = bufWrite titled
                               (if addDots then bufWriteByte CHR ''.'' (buf, w') else (buf, w'));
                       ln = int (length ident)
                   in if nextDot = ln then Inr (bw', None)
                      else
                        (case slice ident (nextDot + 1) ln of
                           Inl e \<Rightarrow> Inl e
                         | Inr rest \<Rightarrow>
                             (let k = IndexByte rest CHR ''.''
                              in Inr (bw', Some (nextDot + 1,
                                                 if k \<ge> 0 then k + (nextDot + 1) else ln))))))))"

text \<open>Lines 300-322: the loop \<open>for i := 0; nextDot >= 0; i++\<close> (\<open>i\<close> is never read).\<close>

function titleCaseIdentifierLoop ::
  "string \<Rightarrow> int \<Rightarrow> int \<Rightarrow> bool \<Rightarrow> buffer \<times> world \<Rightarrow> panic + (buffer \<times> world)" where
  "titleCaseIdentifierLoop ident lastDot nextDot addDots bw =
     (if \<not> nextDot \<ge> 0 then Inr bw
      else
        (case titleCaseIdentifierStep ident lastDot nextDot addDots bw of
           Inl e \<Rightarrow> Inl e
         | Inr (bw', None) \<Rightarrow> Inr bw'
         | Inr (bw', Some (lastDot', nextDot')) \<Rightarrow>
             titleCaseIdentifierLoop ident lastDot' nextDot' True bw'))"
  by pat_completeness auto
termination
  apply (relation "measure (\<lambda>(ident, lastDot, nextDot, addDots, bw).
           nat (int (length ident) - nextDot))")
  subgoal by simp
  subgoal
    by (auto simp: titleCaseIdentifierStep_def slice_def IndexByte_def Let_def
             split: if_splits sum.splits prod.splits)
  done

declare titleCaseIdentifierLoop.simps [simp del]

text \<open>
  Lines 289-326. The buffer is put back (line 324) before its contents are read for
  the return value (line 325).
\<close>

definition TitleCaseIdentifier :: "string \<Rightarrow> world \<Rightarrow> panic + (string \<times> world)" where
  "TitleCaseIdentifier ident w =
     (let nextDot = IndexByte ident CHR ''.'' in
      if nextDot < 0 then TitleCase ident w
      else
        (case titleCaseIdentifierLoop ident 0 nextDot False (GetBuffer w) of
           Inl e \<Rightarrow> Inl e
         | Inr (buf, w2) \<Rightarrow> Inr (bufString buf (PutBuffer buf w2))))"

section \<open>The SQL formatting helpers\<close>

text \<open>The value of a Go \<open>int\<close> (64 bits, two's complement) after an arithmetic operation.\<close>

definition int64 :: "int \<Rightarrow> int" where
  "int64 x = (x + 2 ^ 63) mod 2 ^ 64 - 2 ^ 63"

abbreviation bufWriteString :: "string \<Rightarrow> buffer \<times> world \<Rightarrow> buffer \<times> world" where
  "bufWriteString \<equiv> bufWrite"

text \<open>
  Lines 383-392: the loop \<open>for i := 0; i < count; i++\<close>. (\<open>i%group\<close> is only
  evaluated with \<open>i \<ge> 0\<close> and \<open>group > 1\<close>, where Go's remainder is \<open>mod\<close>.)
\<close>

function placeholdersLoop ::
  "int \<Rightarrow> int \<Rightarrow> int \<Rightarrow> int \<Rightarrow> buffer \<times> world \<Rightarrow> buffer \<times> world" where
  "placeholdersLoop count start group' i bw =
     (if i < count then
        placeholdersLoop count start group' (i + 1)
          (bufWriteString (CHR ''$'' # formatInt (int64 (start + i)))
             (if i \<noteq> 0 then
                (if group' > 1 \<and> i mod group' = 0 then bufWriteString ''),('' bw
                 else bufWriteByte CHR '','' bw)
              else bw))
      else bw)"
  by pat_completeness auto
termination
  by (relation "measure (\<lambda>(count, start, group', i, bw). nat (count - i))") auto

declare placeholdersLoop.simps [simp del]

text \<open>Lines 372-398.\<close>

definition Placeholders :: "int \<Rightarrow> int \<Rightarrow> int \<Rightarrow> world \<Rightarrow> panic + (string \<times> world)" where
  "Placeholders count start group' w =
     (case GetBuffer w of (buf, w1) \<Rightarrow>
        if start = 0 \<or> group' = 0
        then Inl (PanicMsg ''Invalid start or group numbers supplied.'')
        else
          (case placeholdersLoop count start group' 0
                  (if group' > 1 then bufWriteByte CHR ''('' (buf, w1) else (buf, w1)) of
             bw2 \<Rightarrow>
               (case (if group' > 1 then bufWriteByte CHR '')'' bw2 else bw2) of
                  (buf3, w3) \<Rightarrow>
                    (case bufString buf3 w3 of (ret, w4) \<Rightarrow> Inr (ret, PutBuffer buf3 w4)))))"

text \<open>Lines 427-432: \<open>for i, c := range cols\<close>, with \<open>n = len(cols)\<close>.\<close>

fun whereClauseLoop ::
  "int \<Rightarrow> int \<Rightarrow> int \<Rightarrow> string list \<Rightarrow> buffer \<times> world \<Rightarrow> buffer \<times> world" where
  "whereClauseLoop start n i [] bw = bw"
| "whereClauseLoop start n i (c # cs) bw =
     whereClauseLoop start n (i + 1) cs
       (let bw1 = bufWriteString
                    (CHR 0x22 # c @ CHR 0x22 # ''=$'' @ formatInt (int64 (start + i))) bw
        in if i < n - 1 then bufWriteString '' AND '' bw1 else bw1)"

text \<open>Lines 419-435.\<close>

definition WhereClause :: "int \<Rightarrow> string list \<Rightarrow> world \<Rightarrow> panic + (string \<times> world)" where
  "WhereClause start cols w =
     (if start = 0 then Inl (PanicMsg ''0 is not a valid start number for whereClause'')
      else
        (case GetBuffer w of (buf, w1) \<Rightarrow>
           (case whereClauseLoop start (int (length cols)) 0 cols (buf, w1) of
              (buf2, w2) \<Rightarrow>
                (case bufString buf2 w2 of (ret, w3) \<Rightarrow> Inr (ret, PutBuffer buf2 w3)))))"

definition isPanic :: "panic + 'a \<Rightarrow> bool" where
  "isPanic r = (case r of Inl e \<Rightarrow> True | Inr x \<Rightarrow> False)"

section \<open>Sequences of calls\<close>

datatype call = CallTitleCase string | CallCamelCase string | CallTitleCaseIdentifier string

fun perform :: "call \<Rightarrow> world \<Rightarrow> panic + (string \<times> world)" where
  "perform (CallTitleCase n) w = TitleCase n w"
| "perform (CallCamelCase n) w = CamelCase n w"
| "perform (CallTitleCaseIdentifier n) w = TitleCaseIdentifier n w"

text \<open>The state after a sequence of calls, started in the state \<open>w\<close>.\<close>

fun performAll :: "call list \<Rightarrow> world \<Rightarrow> panic + world" where
  "performAll [] w = Inr w"
| "performAll (c # cs) w =
     (case perform c w of Inl e \<Rightarrow> Inl e | Inr (r, w') \<Rightarrow> performAll cs w')"

text \<open>
  What the segment-and-render algorithm produces for \<open>n\<close>: the result of \<open>TitleCase\<close>
  on an empty cache.
\<close>

definition titleCaseFresh :: "string \<Rightarrow> panic + string" where
  "titleCaseFresh n = returned (TitleCase n initWorld)"

definition cacheSound :: "(string \<rightharpoonup> string) \<Rightarrow> bool" where
  "cacheSound c = (\<forall>n v. c n = Some v \<longrightarrow> titleCaseFresh n = Inr v)"

section \<open>The pool's discipline\<close>

text \<open>
  A log keeps the discipline of scoped acquisition when, read from the left with the
  leases held so far, every acquisition is of a lease not held, every access and every
  release is of a lease held, and no lease is held at the end.
\<close>

fun scoped :: "nat list \<Rightarrow> poolEvent list \<Rightarrow> bool" where
  "scoped held [] = (held = [])"
| "scoped held (Acquire b # es) = (b \<notin> set held \<and> scoped (b # held) es)"
| "scoped held (Access b # es) = (b \<in> set held \<and> scoped held es)"
| "scoped held (Release b # es) = (b \<in> set held \<and> scoped (removeAll b held) es)"

text \<open>The pool's log after a call.\<close>

definition poolLogOf :: "panic + ('a \<times> world) \<Rightarrow> poolEvent list" where
  "poolLogOf r = (case r of Inl e \<Rightarrow> [] | Inr (x, w) \<Rightarrow> poolLog w)"

section \<open>The specification's vocabulary\<close>

text \<open>Splitting on a separator and joining with it, as \<open>strings.Split\<close> and \<open>strings.Join\<close> do.\<close>

fun splitOn :: "char \<Rightarrow> string \<Rightarrow> string list" where
  "splitOn sep [] = [[]]"
| "splitOn sep (c # cs) =
     (if c = sep then [] # splitOn sep cs
      else (case splitOn sep cs of [] \<Rightarrow> [[c]] | f # fs \<Rightarrow> (c # f) # fs))"

fun joinWith :: "char \<Rightarrow> string list \<Rightarrow> string" where
  "joinWith sep [] = []"
| "joinWith sep [f] = f"
| "joinWith sep (f # g # fs) = f @ sep # joinWith sep (g # fs)"

text \<open>The Word Segmenter: the maximal underscore-free runs, left to right.\<close>

definition segmentWords :: "string \<Rightarrow> string list" where
  "segmentWords n = filter (\<lambda>word. word \<noteq> []) (splitOn CHR ''_'' n)"

definition isVowel :: "char \<Rightarrow> bool" where
  "isVowel c = (c \<in> set ''aeiouy'')"

definition isDigit :: "char \<Rightarrow> bool" where
  "isDigit c = (c \<in> set ''0123456789'')"

definition isLower :: "char \<Rightarrow> bool" where
  "isLower c = (c \<in> set ''abcdefghijklmnopqrstuvwxyz'')"

definition toUpper :: "char \<Rightarrow> char" where
  "toUpper c =
     (case map_of (zip ''abcdefghijklmnopqrstuvwxyz'' ''ABCDEFGHIJKLMNOPQRSTUVWXYZ'') c of
        Some u \<Rightarrow> u
      | None \<Rightarrow> c)"

text \<open>The Alphabetic Prefix: the part of a word before its first digit.\<close>

definition alphabeticPrefix :: "string \<Rightarrow> string" where
  "alphabeticPrefix word = takeWhile (\<lambda>c. \<not> isDigit c) word"

definition uppercaseTokens :: "string set" where
  "uppercaseTokens = {''guid'', ''id'', ''uid'', ''uuid''}"

text \<open>The condition of the Acronym path, and the two renderings of the Case Renderer.\<close>

definition acronymWord :: "string \<Rightarrow> bool" where
  "acronymWord word = (alphabeticPrefix word \<in> uppercaseTokens \<or> \<not> list_ex isVowel word)"

definition capitalize :: "string \<Rightarrow> string" where
  "capitalize word = (case word of [] \<Rightarrow> [] | c # cs \<Rightarrow> (if isLower c then toUpper c # cs else c # cs))"

definition caseRender :: "string \<Rightarrow> string" where
  "caseRender word = (if acronymWord word then map toUpper word else capitalize word)"

text \<open>TitleCase on a miss, in the specification's words: segment, render, concatenate.\<close>

definition titleRender :: "string \<Rightarrow> string" where
  "titleRender n = concat (map caseRender (segmentWords n))"



section \<open>Calls in terms of the cache alone\<close>

text \<open>The state after \<open>k\<close> accesses to a buffer: only the pool's log grows.\<close>

definition accessed :: "buffer \<Rightarrow> nat \<Rightarrow> world \<Rightarrow> world" where
  "accessed buf k w = w\<lparr>poolLog := poolLog w @ replicate k (Access (lease buf))\<rparr>"

text \<open>
  What a call of TitleCase returns and what it leaves in the cache, as functions of the
  cache it finds: the cached value on a hit, the rendering on a miss.
\<close>

definition cachedTitle :: "(string \<rightharpoonup> string) \<Rightarrow> string \<Rightarrow> string" where
  "cachedTitle c n = (case c n of Some v \<Rightarrow> v | None \<Rightarrow> titleRender n)"

definition cacheAfter :: "(string \<rightharpoonup> string) \<Rightarrow> string \<Rightarrow> (string \<rightharpoonup> string)" where
  "cacheAfter c n = (case c n of Some v \<Rightarrow> c | None \<Rightarrow> c(n \<mapsto> titleRender n))"

text \<open>
  The same for CamelCase: \<open>camelRest\<close> is the part of the stripped name after its first
  underscore.
\<close>

definition camelRest :: "string \<Rightarrow> string" where
  "camelRest r = tl (dropWhile (\<lambda>c. c \<noteq> CHR ''_'') r)"

definition camelRender :: "(string \<rightharpoonup> string) \<Rightarrow> string \<Rightarrow> string" where
  "camelRender c name =
     (let r = dropWhile (\<lambda>x. x = CHR ''_'') name in
      if CHR ''_'' \<in> set r
      then takeWhile (\<lambda>x. x \<noteq> CHR ''_'') r @ cachedTitle c (camelRest r)
      else r)"

definition camelCache :: "(string \<rightharpoonup> string) \<Rightarrow> string \<Rightarrow> (string \<rightharpoonup> string)" where
  "camelCache c name =
     (let r = dropWhile (\<lambda>x. x = CHR ''_'') name in
      if CHR ''_'' \<in> set r then cacheAfter c (camelRest r) else c)"

text \<open>The results of TitleCase on a list of fragments in turn, and the cache they leave.\<close>

fun titledAll :: "(string \<rightharpoonup> string) \<Rightarrow> string list \<Rightarrow> string list" where
  "titledAll c [] = []"
| "titledAll c (f # fs) = cachedTitle c f # titledAll (cacheAfter c f) fs"

fun cacheAfterAll :: "(string \<rightharpoonup> string) \<Rightarrow> string list \<Rightarrow> (string \<rightharpoonup> string)" where
  "cacheAfterAll c [] = c"
| "cacheAfterAll c (f # fs) = cacheAfterAll (cacheAfter c f) fs"

section \<open>Bytes against the specification's character classes\<close>

lemma byte_range_cases:
  "lo < byte c \<Longrightarrow> byte c < hi \<Longrightarrow> \<exists>k\<in>{lo + 1 ..< hi}. c = char_of k"
  by (rule bexI [of _ "byte c"]) simp_all

lemma byte_lower: "(byte c > 96 \<and> byte c < 123) = isLower c"
proof
  assume "byte c > 96 \<and> byte c < 123"
  then have "\<exists>k\<in>{96 + 1 ..< 123::int}. c = char_of k"
    using byte_range_cases [of 96 c 123] by simp
  moreover have "{96 + 1 ..< 123::int} = {97 .. 122}" by auto
  ultimately have "\<exists>k\<in>set [97 .. 122::int]. c = char_of k"
    by (simp only: set_upto)
  then show "isLower c"
    by (simp add: upto.simps isLower_def char_of_def)
next
  assume "isLower c"
  then show "byte c > 96 \<and> byte c < 123"
    by (auto simp: isLower_def)
qed

lemma byte_digit: "(byte c > 47 \<and> byte c < 58) = isDigit c"
proof
  assume "byte c > 47 \<and> byte c < 58"
  then have "\<exists>k\<in>{47 + 1 ..< 58::int}. c = char_of k"
    using byte_range_cases [of 47 c 58] by simp
  moreover have "{47 + 1 ..< 58::int} = {48 .. 57}" by auto
  ultimately have "\<exists>k\<in>set [48 .. 57::int]. c = char_of k"
    by (simp only: set_upto)
  then show "isDigit c"
    by (simp add: upto.simps isDigit_def char_of_def)
next
  assume "isDigit c"
  then show "byte c > 47 \<and> byte c < 58"
    by (auto simp: isDigit_def)
qed

lemma byte_eq_iff: "0 \<le> k \<Longrightarrow> k < 256 \<Longrightarrow> (byte c = k) = (c = char_of k)"
  by (metis char_of_char of_char_of mod_pos_pos_trivial)

lemma byte_vowel:
  "(byte c = 97 \<or> byte c = 101 \<or> byte c = 105 \<or> byte c = 111 \<or> byte c = 117 \<or> byte c = 121)
     = isVowel c"
  by (simp add: isVowel_def byte_eq_iff char_of_def)

lemma toUpper_lower: "isLower c \<Longrightarrow> byteSub c 32 = toUpper c"
  by (auto simp: isLower_def byteSub_def toUpper_def char_of_def)

lemma toUpper_other: "\<not> isLower c \<Longrightarrow> toUpper c = c"
  by (auto simp: isLower_def toUpper_def)

section \<open>What the buffer operations do\<close>

lemma accessed_0 [simp]: "accessed buf 0 w = w"
  by (simp add: accessed_def)

lemma accessed_bytes [simp]: "accessed (buf\<lparr>bytes := b\<rparr>) k w = accessed buf k w"
  by (simp add: accessed_def)

lemma accessed_accessed [simp]: "accessed buf k (accessed buf j w) = accessed buf (j + k) w"
  by (simp add: accessed_def replicate_add)

lemma accessed_fields [simp]:
  "titleCaseCache (accessed buf k w) = titleCaseCache w"
  "leases (accessed buf k w) = leases w"
  "stdout (accessed buf k w) = stdout w"
  "poolLog (accessed buf k w) = poolLog w @ replicate k (Access (lease buf))"
  by (simp_all add: accessed_def)

lemma bufWriteByte_eq:
  "bufWriteByte c (buf, w) = (buf\<lparr>bytes := bytes buf @ [c]\<rparr>, accessed buf 1 w)"
  by (simp add: bufWriteByte_def accessed_def)

lemma bufWrite_eq:
  "bufWrite s (buf, w) = (buf\<lparr>bytes := bytes buf @ s\<rparr>, accessed buf 1 w)"
  by (simp add: bufWrite_def accessed_def)

lemma bufString_eq: "bufString buf w = (bytes buf, accessed buf 1 w)"
  by (simp add: bufString_def accessed_def)

section \<open>The Case Renderer of TitleCase\<close>

lemma titleCaseUpper_eq:
  "titleCaseUpper c (buf, w) = (buf\<lparr>bytes := bytes buf @ [toUpper c]\<rparr>, accessed buf 1 w)"
  by (cases "isLower c")
     (simp_all add: titleCaseUpper_def byte_lower bufWriteByte_eq toUpper_lower toUpper_other)

lemma fold_titleCaseUpper:
  "fold titleCaseUpper word (buf, w) =
     (buf\<lparr>bytes := bytes buf @ map toUpper word\<rparr>, accessed buf (length word) w)"
  by (induction word arbitrary: buf w) (simp_all add: titleCaseUpper_eq)

lemma titleCaseScan_set:
  "numStart \<noteq> wordLen \<Longrightarrow>
   titleCaseScan cs i wordLen (vowels, numStart) = (vowels \<or> list_ex isVowel cs, numStart)"
  by (induction cs arbitrary: i vowels) (simp_all add: byte_vowel)

lemma titleCaseScan_unset:
  "i + int (length cs) = wordLen \<Longrightarrow>
   titleCaseScan cs i wordLen (vowels, wordLen) =
     (vowels \<or> list_ex isVowel cs, i + int (length (takeWhile (\<lambda>c. \<not> isDigit c) cs)))"
proof (induction cs arbitrary: i vowels)
  case Nil
  then show ?case by simp
next
  case (Cons c cs)
  show ?case
  proof (cases "isDigit c")
    case True
    moreover have "i \<noteq> wordLen" using Cons.prems by simp
    ultimately show ?thesis
      using titleCaseScan_set [of i wordLen cs "i + 1"] by (simp add: byte_vowel byte_digit)
  next
    case False
    then show ?thesis
      using Cons.IH [of "i + 1"] Cons.prems by (simp add: byte_vowel byte_digit)
  qed
qed

lemma uppercaseWords_tokens: "(uppercaseWords prefix = Some ()) = (prefix \<in> uppercaseTokens)"
  by (simp add: uppercaseWords_def uppercaseTokens_def)

lemma titleCaseAcronym_eq: "titleCaseAcronym word = Inr (acronymWord word)"
proof -
  have scan: "titleCaseScan word 0 (int (length word)) (False, int (length word)) =
      (list_ex isVowel word, int (length (takeWhile (\<lambda>c. \<not> isDigit c) word)))"
    using titleCaseScan_unset [of 0 word "int (length word)" False] by simp
  have "length (takeWhile (\<lambda>c. \<not> isDigit c) word) \<le> length word"
    by (rule length_takeWhile_le)
  then have "slice word 0 (int (length (takeWhile (\<lambda>c. \<not> isDigit c) word))) =
      Inr (alphabeticPrefix word)"
    by (simp add: slice_def alphabeticPrefix_def takeWhile_eq_take [symmetric])
  then show ?thesis
    by (simp add: titleCaseAcronym_def scan acronymWord_def uppercaseWords_tokens)
qed

lemma titleCaseWord_eq:
  "\<exists>k. titleCaseWord word (buf, w) =
     Inr (buf\<lparr>bytes := bytes buf @ caseRender word\<rparr>, accessed buf k w)"
proof (cases "acronymWord word")
  case True
  then show ?thesis
    by (auto simp: titleCaseWord_def titleCaseAcronym_eq fold_titleCaseUpper caseRender_def)
next
  case False
  then obtain c cs where word: "word = c # cs"
    by (cases word) (auto simp: acronymWord_def)
  have "slice (c # cs) 1 (int (length (c # cs))) = Inr cs"
    by (simp add: slice_def)
  then show ?thesis
    using False
    by (auto simp: titleCaseWord_def titleCaseAcronym_eq caseRender_def capitalize_def word
        index_def byte_lower bufWrite_eq bufWriteByte_eq toUpper_lower)
qed

section \<open>Splitting and segmenting\<close>

lemma splitOn_not_Nil [simp]: "splitOn sep s \<noteq> []"
  by (induction s) (auto split: list.splits)

lemma splitOn_append:
  "sep \<notin> set u \<Longrightarrow>
   splitOn sep (u @ r) = (u @ hd (splitOn sep r)) # tl (splitOn sep r)"
  by (induction u) (auto split: list.splits)

lemma splitOn_no_sep: "sep \<notin> set u \<Longrightarrow> splitOn sep u = [u]"
  using splitOn_append [of sep u "[]"] by simp

lemma splitOn_append_sep:
  "sep \<notin> set u \<Longrightarrow> splitOn sep (u @ sep # r) = u # splitOn sep r"
  using splitOn_append [of sep u "sep # r"] by simp

lemma segmentWords_Nil [simp]: "segmentWords [] = []"
  by (simp add: segmentWords_def)

lemma segmentWords_underscore [simp]: "segmentWords (CHR ''_'' # cs) = segmentWords cs"
  by (simp add: segmentWords_def)

lemma segmentWords_word:
  "CHR ''_'' \<notin> set u \<Longrightarrow> u \<noteq> [] \<Longrightarrow> segmentWords u = [u]"
  by (simp add: segmentWords_def splitOn_no_sep)

lemma segmentWords_word_sep:
  "CHR ''_'' \<notin> set u \<Longrightarrow> u \<noteq> [] \<Longrightarrow> segmentWords (u @ CHR ''_'' # r) = u # segmentWords r"
  by (simp add: segmentWords_def splitOn_append_sep)

lemma titleRender_Nil [simp]: "titleRender [] = []"
  by (simp add: titleRender_def)

lemma titleRender_underscore [simp]: "titleRender (CHR ''_'' # cs) = titleRender cs"
  by (simp add: titleRender_def)

lemma titleRender_word:
  "CHR ''_'' \<notin> set u \<Longrightarrow> u \<noteq> [] \<Longrightarrow> titleRender u = caseRender u"
  by (simp add: titleRender_def segmentWords_word)

lemma titleRender_word_sep:
  "CHR ''_'' \<notin> set u \<Longrightarrow> u \<noteq> [] \<Longrightarrow>
   titleRender (u @ CHR ''_'' # r) = caseRender u @ titleRender r"
  by (simp add: titleRender_def segmentWords_word_sep)

section \<open>The loop of TitleCase\<close>

lemma index_at:
  "name = pre @ c # rest \<Longrightarrow> i = int (length pre) \<Longrightarrow> index name i = Inr c"
  by (simp add: index_def)

lemma slice_at:
  "name = pre @ cur @ rest \<Longrightarrow> s = int (length pre) \<Longrightarrow> e = s + int (length cur) \<Longrightarrow>
   slice name s e = Inr cur"
  by (simp add: slice_def)

lemma advance_extend:
  assumes "name = pre @ cur @ c # rest" "s = int (length pre)" "e = s + int (length cur)"
    and "CHR ''_'' \<notin> set cur" "c \<noteq> CHR ''_''"
  shows "titleCaseAdvance name s e = Inr (Some (s, e + 1))"
proof -
  obtain d ds where first: "cur @ c # rest = d # ds" "d \<noteq> CHR ''_''"
    using assms by (cases cur) auto
  have i1: "index name s = Inr d"
    using assms first by (intro index_at [of name pre d ds]) simp_all
  have i2: "index name e = Inr c"
    using assms by (intro index_at [of name "pre @ cur" c rest]) simp_all
  have lt: "e < int (length name)"
    using assms by simp
  show ?thesis
    unfolding titleCaseAdvance_def i1 i2 using lt first(2) assms(5) by simp
qed

lemma advance_skip:
  assumes "name = pre @ CHR ''_'' # rest" "s = int (length pre)" "e = s"
  shows "titleCaseAdvance name s e = Inr (Some (s + 1, e + 1))"
proof -
  have i1: "index name s = Inr CHR ''_''"
    using assms by (intro index_at [of name pre _ rest]) simp_all
  have lt: "e < int (length name)"
    using assms by simp
  show ?thesis
    unfolding titleCaseAdvance_def i1 using lt by simp
qed

lemma advance_word:
  assumes "name = pre @ cur @ CHR ''_'' # rest" "s = int (length pre)" "e = s + int (length cur)"
    and "CHR ''_'' \<notin> set cur" "cur \<noteq> []"
  shows "titleCaseAdvance name s e = Inr None"
proof -
  obtain d ds where first: "cur = d # ds" "d \<noteq> CHR ''_''"
    using assms by (cases cur) auto
  have i1: "index name s = Inr d"
    using assms first by (intro index_at [of name pre d "ds @ CHR ''_'' # rest"]) simp_all
  have i2: "index name e = Inr CHR ''_''"
    using assms by (intro index_at [of name "pre @ cur" _ rest]) simp_all
  have lt: "e < int (length name)"
    using assms by simp
  show ?thesis
    unfolding titleCaseAdvance_def i1 i2 using lt first(2) by simp
qed

lemma advance_end:
  "e = int (length name) \<Longrightarrow> titleCaseAdvance name s e = Inr None"
  by (simp add: titleCaseAdvance_def)

lemma titleCaseEmit_eq:
  assumes "name = pre @ cur @ rest" "s = int (length pre)" "e = s + int (length cur)"
  shows "\<exists>k. titleCaseEmit name s e (buf, w) =
           Inr (buf\<lparr>bytes := bytes buf @ caseRender cur\<rparr>, accessed buf k w)"
  using titleCaseWord_eq [of cur buf w] slice_at [OF assms] by (simp add: titleCaseEmit_def)

lemma titleCaseLoop_done:
  "int (length name) \<le> s \<Longrightarrow> titleCaseLoop name s e bw = Inr bw"
  by (subst titleCaseLoop.simps) simp

lemma titleCaseLoop_continue:
  "s < int (length name) \<Longrightarrow> titleCaseAdvance name s e = Inr (Some (s', e')) \<Longrightarrow>
   titleCaseLoop name s e bw = titleCaseLoop name s' e' bw"
  by (subst titleCaseLoop.simps) simp

lemma titleCaseLoop_emit:
  "s < int (length name) \<Longrightarrow> titleCaseAdvance name s e = Inr None \<Longrightarrow>
   titleCaseEmit name s e bw = Inr bw' \<Longrightarrow>
   titleCaseLoop name s e bw = titleCaseLoop name (e + 1) (e + 1) bw'"
  by (subst titleCaseLoop.simps) simp

lemma titleCaseLoop_eq:
  "name = pre @ cur @ rest \<Longrightarrow> s = int (length pre) \<Longrightarrow> e = s + int (length cur) \<Longrightarrow>
   CHR ''_'' \<notin> set cur \<Longrightarrow>
   \<exists>k. titleCaseLoop name s e (buf, w) =
        Inr (buf\<lparr>bytes := bytes buf @ titleRender (cur @ rest)\<rparr>, accessed buf k w)"
proof (induction rest arbitrary: pre cur s e buf w)
  case Nil
  show ?case
  proof (cases "cur = []")
    case True
    have "titleCaseLoop name s e (buf, w) = Inr (buf, w)"
      using Nil True by (intro titleCaseLoop_done) simp
    then show ?thesis
      using True by (auto intro: exI [of _ 0])
  next
    case False
    obtain k where emit: "titleCaseEmit name s e (buf, w) =
        Inr (buf\<lparr>bytes := bytes buf @ caseRender cur\<rparr>, accessed buf k w)"
      using titleCaseEmit_eq [OF Nil(1-3), of buf w] by auto
    have "s < int (length name)" "e = int (length name)"
      using Nil False by simp_all
    then have "titleCaseLoop name s e (buf, w) =
        Inr (buf\<lparr>bytes := bytes buf @ caseRender cur\<rparr>, accessed buf k w)"
      using titleCaseLoop_emit [OF _ advance_end emit] by (simp add: titleCaseLoop_done)
    then show ?thesis
      using Nil False by (auto simp: titleRender_word)
  qed
next
  case (Cons c rest)
  have lt: "s < int (length name)"
    using Cons.prems by simp
  show ?case
  proof (cases "c = CHR ''_''")
    case False
    have step: "titleCaseLoop name s e (buf, w) = titleCaseLoop name s (e + 1) (buf, w)"
      using titleCaseLoop_continue [OF lt advance_extend [OF Cons.prems(1-4) False]] .
    have "\<exists>k. titleCaseLoop name s (e + 1) (buf, w) =
        Inr (buf\<lparr>bytes := bytes buf @ titleRender ((cur @ [c]) @ rest)\<rparr>, accessed buf k w)"
      using Cons.prems False by (intro Cons.IH [of pre "cur @ [c]"]) simp_all
    then show ?thesis
      using step by simp
  next
    case under: True
    show ?thesis
    proof (cases "cur = []")
      case True
      have "titleCaseAdvance name s e = Inr (Some (s + 1, e + 1))"
        using Cons.prems True under by (intro advance_skip [of name pre rest]) simp_all
      then have step: "titleCaseLoop name s e (buf, w) =
          titleCaseLoop name (s + 1) (e + 1) (buf, w)"
        using titleCaseLoop_continue [OF lt] by simp
      have "\<exists>k. titleCaseLoop name (s + 1) (e + 1) (buf, w) =
          Inr (buf\<lparr>bytes := bytes buf @ titleRender ([] @ rest)\<rparr>, accessed buf k w)"
        using Cons.prems True by (intro Cons.IH [of "pre @ [c]" "[]"]) simp_all
      then show ?thesis
        using step True under by simp
    next
      case False
      obtain k where emit: "titleCaseEmit name s e (buf, w) =
          Inr (buf\<lparr>bytes := bytes buf @ caseRender cur\<rparr>, accessed buf k w)"
        using titleCaseEmit_eq [OF Cons.prems(1-3), of buf w] by auto
      have "titleCaseAdvance name s e = Inr None"
        using Cons.prems False under by (intro advance_word [of name pre cur rest]) simp_all
      then have step: "titleCaseLoop name s e (buf, w) =
          titleCaseLoop name (e + 1) (e + 1)
            (buf\<lparr>bytes := bytes buf @ caseRender cur\<rparr>, accessed buf k w)"
        using titleCaseLoop_emit [OF lt _ emit] by simp
      have "\<exists>j. titleCaseLoop name (e + 1) (e + 1)
            (buf\<lparr>bytes := bytes buf @ caseRender cur\<rparr>, accessed buf k w) =
          Inr (buf\<lparr>bytes := bytes buf @ caseRender cur\<rparr>
                 \<lparr>bytes := bytes (buf\<lparr>bytes := bytes buf @ caseRender cur\<rparr>) @ titleRender ([] @ rest)\<rparr>,
               accessed (buf\<lparr>bytes := bytes buf @ caseRender cur\<rparr>) j (accessed buf k w))"
        using Cons.prems by (intro Cons.IH [of "pre @ cur @ [c]" "[]"]) simp_all
      then obtain j where "titleCaseLoop name (e + 1) (e + 1)
            (buf\<lparr>bytes := bytes buf @ caseRender cur\<rparr>, accessed buf k w) =
          Inr (buf\<lparr>bytes := bytes buf @ caseRender cur @ titleRender rest\<rparr>,
               accessed buf (k + j) w)"
        by auto
      then show ?thesis
        using step under False Cons.prems by (auto simp: titleRender_word_sep)
    qed
  qed
qed

section \<open>TitleCase in terms of the cache alone\<close>

lemma titleCaseLoop_start:
  "\<exists>k. titleCaseLoop n 0 0 (buf, w) =
     Inr (buf\<lparr>bytes := bytes buf @ titleRender n\<rparr>, accessed buf k w)"
  using titleCaseLoop_eq [of n "[]" "[]" n 0 0 buf w] by simp

lemma TitleCase_hit:
  "titleCaseCache w n = Some v \<Longrightarrow> TitleCase n w = Inr (v, w)"
  by (simp add: TitleCase_def)

lemma TitleCase_miss:
  assumes "titleCaseCache w n = None"
  shows "\<exists>w'. TitleCase n w = Inr (titleRender n, w') \<and>
           titleCaseCache w' = (titleCaseCache w)(n \<mapsto> titleRender n) \<and>
           stdout w' = stdout w"
proof -
  obtain buf w1 where get: "GetBuffer w = (buf, w1)" "bytes buf = []"
     "titleCaseCache w1 = titleCaseCache w" "stdout w1 = stdout w"
    by (simp add: GetBuffer_def)
  obtain k where "titleCaseLoop n 0 0 (buf, w1) =
      Inr (buf\<lparr>bytes := bytes buf @ titleRender n\<rparr>, accessed buf k w1)"
    using titleCaseLoop_start by blast
  then show ?thesis
    using assms get by (simp add: TitleCase_def bufString_eq PutBuffer_def)
qed

lemma TitleCase_eq:
  "\<exists>w'. TitleCase n w = Inr (cachedTitle (titleCaseCache w) n, w') \<and>
         titleCaseCache w' = cacheAfter (titleCaseCache w) n \<and> stdout w' = stdout w"
proof (cases "titleCaseCache w n")
  case None
  then show ?thesis
    using TitleCase_miss [OF None] by (simp add: cachedTitle_def cacheAfter_def)
next
  case (Some v)
  then show ?thesis
    by (simp add: TitleCase_hit cachedTitle_def cacheAfter_def)
qed

lemma returned_Inr [simp]: "returned (Inr (r, w)) = Inr r"
  by (simp add: returned_def)

lemma returned_TitleCase: "returned (TitleCase n w) = Inr (cachedTitle (titleCaseCache w) n)"
  using TitleCase_eq [of n w] by auto

lemma titleCaseFresh_eq: "titleCaseFresh n = Inr (titleRender n)"
  by (simp add: titleCaseFresh_def returned_TitleCase initWorld_def cachedTitle_def)

lemma cacheSound_iff: "cacheSound c = (\<forall>n v. c n = Some v \<longrightarrow> v = titleRender n)"
  by (auto simp: cacheSound_def titleCaseFresh_eq)

lemma cacheSound_empty: "cacheSound Map.empty"
  by (simp add: cacheSound_def)

lemma cacheSound_after: "cacheSound c \<Longrightarrow> cacheSound (cacheAfter c n)"
  by (auto simp: cacheSound_iff cacheAfter_def split: option.splits)

lemma cachedTitle_sound: "cacheSound c \<Longrightarrow> cachedTitle c n = titleRender n"
  by (auto simp: cacheSound_iff cachedTitle_def split: option.splits)

section \<open>CamelCase in terms of the cache alone\<close>

lemma camelCaseScan_eq:
  "name = pre @ rest \<Longrightarrow> i = int (length pre) \<Longrightarrow>
   camelCaseScan test name i =
     Inr (if \<exists>c\<in>set rest. test c then i + int (length (takeWhile (\<lambda>c. \<not> test c) rest))
          else - 1)"
proof (induction rest arbitrary: pre i)
  case Nil
  then show ?case by (subst camelCaseScan.simps) simp
next
  case (Cons c rest)
  have at: "index name i = Inr c"
    using Cons.prems by (intro index_at [of name pre c rest]) simp_all
  have lt: "i < int (length name)"
    using Cons.prems by simp
  show ?case
  proof (cases "test c")
    case True
    then show ?thesis
      using at lt by (subst camelCaseScan.simps) simp
  next
    case False
    have "camelCaseScan test name i = camelCaseScan test name (i + 1)"
      using at lt False by (subst camelCaseScan.simps) simp
    also have "\<dots> = Inr (if \<exists>c\<in>set rest. test c
        then (i + 1) + int (length (takeWhile (\<lambda>c. \<not> test c) rest)) else - 1)"
      using Cons.prems by (intro Cons.IH [of "pre @ [c]"]) simp_all
    finally show ?thesis
      using False by simp
  qed
qed

lemma camelCaseScan_start:
  "camelCaseScan test name 0 =
     Inr (if \<exists>c\<in>set name. test c then int (length (takeWhile (\<lambda>c. \<not> test c) name)) else - 1)"
  using camelCaseScan_eq [of name "[]" name 0 test] by simp

lemma slice_take: "k \<le> length r \<Longrightarrow> slice r 0 (int k) = Inr (take k r)"
  by (simp add: slice_def)

lemma slice_drop: "k \<le> length r \<Longrightarrow> slice r (int k) (int (length r)) = Inr (drop k r)"
proof -
  assume "k \<le> length r"
  then have "nat (int (length r) - int k) = length r - k" by simp
  then show ?thesis
    using \<open>k \<le> length r\<close> by (simp add: slice_def)
qed

lemma slice_prefix:
  "slice r 0 (int (length (takeWhile P r))) = Inr (takeWhile P r)"
  using slice_take [of "length (takeWhile P r)" r] length_takeWhile_le [of P r]
    takeWhile_eq_take [of P r] by simp

lemma slice_suffix:
  "slice r (int (length (takeWhile P r))) (int (length r)) = Inr (dropWhile P r)"
  using slice_drop [of "length (takeWhile P r)" r] length_takeWhile_le [of P r]
    dropWhile_eq_drop [of P r] by simp

lemma slice_suffix_tl:
  assumes "\<exists>c\<in>set r. \<not> P c"
  shows "slice r (int (length (takeWhile P r)) + 1) (int (length r)) = Inr (tl (dropWhile P r))"
proof -
  have "length (takeWhile P r) \<noteq> length r"
    using assms by (metis takeWhile_eq_all_conv takeWhile_eq_take take_all_iff order_refl)
  then have le: "Suc (length (takeWhile P r)) \<le> length r"
    using length_takeWhile_le [of P r] by simp
  have "drop (Suc (length (takeWhile P r))) r = tl (dropWhile P r)"
    by (simp add: dropWhile_eq_drop drop_Suc tl_drop)
  moreover have "int (length (takeWhile P r)) + 1 = int (Suc (length (takeWhile P r)))"
    by simp
  ultimately show ?thesis
    using slice_drop [OF le] by (simp only:)
qed

lemma camelCaseWrite_plain:
  "CHR ''_'' \<notin> set r \<Longrightarrow>
   camelCaseWrite r (- 1) (buf, w) = Inr (buf\<lparr>bytes := bytes buf @ r\<rparr>, accessed buf 1 w)"
  by (simp add: camelCaseWrite_def bufWrite_eq)

lemma camelCaseWrite_split:
  assumes "CHR ''_'' \<in> set r"
  shows "\<exists>w'. camelCaseWrite r (int (length (takeWhile (\<lambda>c. c \<noteq> CHR ''_'') r))) (buf, w) =
      Inr (buf\<lparr>bytes := bytes buf @ takeWhile (\<lambda>c. c \<noteq> CHR ''_'') r @
                  cachedTitle (titleCaseCache w) (camelRest r)\<rparr>, w') \<and>
      titleCaseCache w' = cacheAfter (titleCaseCache w) (camelRest r) \<and> stdout w' = stdout w"
proof -
  let ?P = "\<lambda>c. c \<noteq> CHR ''_''"
  have s2: "slice r (int (length (takeWhile ?P r)) + 1) (int (length r)) = Inr (camelRest r)"
    unfolding camelRest_def using assms by (intro slice_suffix_tl) auto
  obtain w1 where tc: "TitleCase (camelRest r) (accessed buf (Suc 0) w) =
      Inr (cachedTitle (titleCaseCache w) (camelRest r), w1)"
    "titleCaseCache w1 = cacheAfter (titleCaseCache w) (camelRest r)" "stdout w1 = stdout w"
    using TitleCase_eq [of "camelRest r" "accessed buf (Suc 0) w"] by auto
  show ?thesis
    by (simp add: camelCaseWrite_def slice_prefix s2 bufWrite_eq tc)
qed

lemma CamelCase_eq:
  "\<exists>w'. CamelCase name w = Inr (camelRender (titleCaseCache w) name, w') \<and>
         titleCaseCache w' = camelCache (titleCaseCache w) name \<and> stdout w' = stdout w"
proof -
  define r where "r = dropWhile (\<lambda>x. x = CHR ''_'') name"
  obtain buf w1 where get: "GetBuffer w = (buf, w1)" "bytes buf = []"
     "titleCaseCache w1 = titleCaseCache w" "stdout w1 = stdout w"
    by (simp add: GetBuffer_def)
  have render: "camelRender (titleCaseCache w) name =
      (if CHR ''_'' \<in> set r
       then takeWhile (\<lambda>x. x \<noteq> CHR ''_'') r @ cachedTitle (titleCaseCache w) (camelRest r)
       else r)"
    by (simp add: camelRender_def r_def Let_def)
  have cache: "camelCache (titleCaseCache w) name =
      (if CHR ''_'' \<in> set r then cacheAfter (titleCaseCache w) (camelRest r)
       else titleCaseCache w)"
    by (simp add: camelCache_def r_def Let_def)
  have scan1: "camelCaseScan (\<lambda>c. c \<noteq> CHR ''_'') name 0 =
      Inr (if r \<noteq> [] then int (length (takeWhile (\<lambda>x. x = CHR ''_'') name)) else - 1)"
    by (simp add: camelCaseScan_start r_def)
  have sl: "slice name (int (length (takeWhile (\<lambda>x. x = CHR ''_'') name))) (int (length name)) =
      Inr r"
    unfolding r_def by (rule slice_suffix)
  have scan2: "camelCaseScan (\<lambda>c. c = CHR ''_'') r 0 =
      Inr (if CHR ''_'' \<in> set r then int (length (takeWhile (\<lambda>c. c \<noteq> CHR ''_'') r)) else - 1)"
    by (simp add: camelCaseScan_start)
  show ?thesis
  proof (cases "r = []")
    case True
    then show ?thesis
      using get by (simp add: CamelCase_def scan1 PutBuffer_def render cache)
  next
    case False
    show ?thesis
    proof (cases "CHR ''_'' \<in> set r")
      case True
      obtain w2 where wr: "camelCaseWrite r (int (length (takeWhile (\<lambda>c. c \<noteq> CHR ''_'') r)))
            (buf, w1) =
          Inr (buf\<lparr>bytes := bytes buf @ takeWhile (\<lambda>c. c \<noteq> CHR ''_'') r @
                  cachedTitle (titleCaseCache w1) (camelRest r)\<rparr>, w2)"
        "titleCaseCache w2 = cacheAfter (titleCaseCache w1) (camelRest r)" "stdout w2 = stdout w1"
        using camelCaseWrite_split [OF True, of buf w1] by auto
      show ?thesis
        using False True get
        by (simp add: CamelCase_def scan1 sl scan2 wr bufString_eq PutBuffer_def render cache)
    next
      case under: False
      show ?thesis
        using False under get
        by (simp add: CamelCase_def scan1 sl scan2 camelCaseWrite_plain bufString_eq PutBuffer_def
            render cache)
    qed
  qed
qed

section \<open>TitleCaseIdentifier in terms of the cache alone\<close>

lemma titledAll_Nil_iff [simp]: "(titledAll c fs = []) = (fs = [])"
  by (cases fs) simp_all

lemma length_titledAll [simp]: "length (titledAll c fs) = length fs"
  by (induction fs arbitrary: c) simp_all

lemma joinWith_Cons: "ts \<noteq> [] \<Longrightarrow> joinWith sep (t # ts) = t @ sep # joinWith sep ts"
  by (cases ts) simp_all

lemma dropWhile_sep: "sep \<in> set s \<Longrightarrow> \<exists>r. dropWhile (\<lambda>c. c \<noteq> sep) s = sep # r"
proof (induction s)
  case Nil
  then show ?case by simp
next
  case (Cons a s)
  then show ?case by (cases "a = sep") simp_all
qed

lemma splitOn_takeWhile:
  "splitOn sep s =
     takeWhile (\<lambda>c. c \<noteq> sep) s #
       (if sep \<in> set s then splitOn sep (tl (dropWhile (\<lambda>c. c \<noteq> sep) s)) else [])"
proof (cases "sep \<in> set s")
  case False
  have e1: "splitOn sep s = [s]"
    using False by (rule splitOn_no_sep)
  have e2: "takeWhile (\<lambda>c. c \<noteq> sep) s = s"
    using False by auto
  show ?thesis
    by (simp only: e1 e2 False if_False)
next
  case True
  from dropWhile_sep [OF True] obtain r where r: "dropWhile (\<lambda>c. c \<noteq> sep) s = sep # r"
    by (elim exE)
  have "sep \<notin> set (takeWhile (\<lambda>c. c \<noteq> sep) s)"
    by (auto dest: set_takeWhileD)
  then have "splitOn sep (takeWhile (\<lambda>c. c \<noteq> sep) s @ dropWhile (\<lambda>c. c \<noteq> sep) s) =
      takeWhile (\<lambda>c. c \<noteq> sep) s # splitOn sep r"
    unfolding r by (rule splitOn_append_sep)
  then have "splitOn sep s = takeWhile (\<lambda>c. c \<noteq> sep) s # splitOn sep r"
    by (simp only: takeWhile_dropWhile_id)
  moreover have "tl (dropWhile (\<lambda>c. c \<noteq> sep) s) = r"
    by (simp only: r list.sel)
  ultimately show ?thesis
    using True by (simp only: if_True)
qed


lemma IndexByte_eq:
  "IndexByte s c = (if c \<in> set s then int (length (takeWhile (\<lambda>x. x \<noteq> c) s)) else - 1)"
  by (simp add: IndexByte_def)

lemma Println2_fields [simp]:
  "titleCaseCache (Println2 a b w) = titleCaseCache w"
  by (simp add: Println2_def)

lemma titleCaseIdentifierStep_eq:
  assumes "ident = pre @ rest" "lastDot = int (length pre)"
    and "nextDot = lastDot + int (length (takeWhile (\<lambda>c. c \<noteq> CHR ''.'') rest))"
  shows "\<exists>w'. titleCaseIdentifierStep ident lastDot nextDot addDots (buf, w) =
      Inr ((buf\<lparr>bytes := bytes buf @ (if addDots then ''.'' else []) @
                cachedTitle (titleCaseCache w) (takeWhile (\<lambda>c. c \<noteq> CHR ''.'') rest)\<rparr>, w'),
           if CHR ''.'' \<in> set rest
           then Some (nextDot + 1, (nextDot + 1) + int (length (takeWhile (\<lambda>c. c \<noteq> CHR ''.'')
                         (tl (dropWhile (\<lambda>c. c \<noteq> CHR ''.'') rest)))))
           else None) \<and>
      titleCaseCache w' = cacheAfter (titleCaseCache w) (takeWhile (\<lambda>c. c \<noteq> CHR ''.'') rest)"
proof -
  define frag where "frag = takeWhile (\<lambda>c. c \<noteq> CHR ''.'') rest"
  define tail where "tail = dropWhile (\<lambda>c. c \<noteq> CHR ''.'') rest"
  have ident: "ident = pre @ frag @ tail"
    using assms(1) by (simp add: frag_def tail_def)
  have nd: "nextDot = lastDot + int (length frag)"
    using assms(3) by (simp add: frag_def)
  have sl: "slice ident lastDot nextDot = Inr frag"
    using ident assms(2) nd by (rule slice_at)
  obtain w1 where tc: "TitleCase frag (Println2 lastDot nextDot w) =
      Inr (cachedTitle (titleCaseCache w) frag, w1)"
    "titleCaseCache w1 = cacheAfter (titleCaseCache w) frag"
    using TitleCase_eq [of frag "Println2 lastDot nextDot w"] by auto
  define buf' where "buf' = buf\<lparr>bytes := bytes buf @ (if addDots then ''.'' else []) @
      cachedTitle (titleCaseCache w) frag\<rparr>"
  define w2 where "w2 = accessed buf (if addDots then Suc (Suc 0) else Suc 0) w1"
  have wr: "bufWrite (cachedTitle (titleCaseCache w) frag)
        (if addDots then bufWriteByte CHR ''.'' (buf, w1) else (buf, w1)) = (buf', w2)"
    "titleCaseCache w2 = titleCaseCache w1"
    by (simp_all add: bufWrite_eq bufWriteByte_eq buf'_def w2_def)
  have goal: "\<exists>w'. titleCaseIdentifierStep ident lastDot nextDot addDots (buf, w) =
      Inr ((buf', w'),
           if CHR ''.'' \<in> set rest
           then Some (nextDot + 1, (nextDot + 1) + int (length (takeWhile (\<lambda>c. c \<noteq> CHR ''.'')
                         (tl tail))))
           else None) \<and>
      titleCaseCache w' = cacheAfter (titleCaseCache w) frag"
  proof (cases "CHR ''.'' \<in> set rest")
    case False
    then have "tail = []" by (auto simp: tail_def)
    then have "nextDot = int (length ident)"
      using ident nd assms(2) by simp
    then show ?thesis
      using False tc wr sl by (simp add: titleCaseIdentifierStep_def)
  next
    case True
    from dropWhile_sep [OF True] obtain r where r: "tail = CHR ''.'' # r"
      unfolding tail_def by (elim exE)
    have ne: "nextDot \<noteq> int (length ident)"
      using ident nd assms(2) r by simp
    have sl2: "slice ident (nextDot + 1) (int (length ident)) = Inr r"
      using ident nd assms(2) r
      by (intro slice_at [of ident "pre @ frag @ ''.''" r "[]"]) simp_all
    have "length (takeWhile (\<lambda>c. c \<noteq> CHR ''.'') r) = length r" if "CHR ''.'' \<notin> set r"
      using that by (auto intro: arg_cong [of _ _ length])
    then have next_eq: "(let k = IndexByte r CHR ''.'' in
          if k \<ge> 0 then k + (nextDot + 1) else int (length ident)) =
        (nextDot + 1) + int (length (takeWhile (\<lambda>c. c \<noteq> CHR ''.'') r))"
      using ident nd assms(2) r by (simp add: IndexByte_eq)
    show ?thesis
      using True tc wr sl sl2 ne next_eq r
      by (simp add: titleCaseIdentifierStep_def Let_def)
  qed
  show ?thesis
    using goal unfolding buf'_def frag_def tail_def .
qed

lemma titleCaseIdentifierLoop_break:
  "0 \<le> nextDot \<Longrightarrow>
   titleCaseIdentifierStep ident lastDot nextDot addDots bw = Inr (bw', None) \<Longrightarrow>
   titleCaseIdentifierLoop ident lastDot nextDot addDots bw = Inr bw'"
  by (subst titleCaseIdentifierLoop.simps) simp

lemma titleCaseIdentifierLoop_next:
  "0 \<le> nextDot \<Longrightarrow>
   titleCaseIdentifierStep ident lastDot nextDot addDots bw = Inr (bw', Some (l, n)) \<Longrightarrow>
   titleCaseIdentifierLoop ident lastDot nextDot addDots bw =
     titleCaseIdentifierLoop ident l n True bw'"
  by (subst titleCaseIdentifierLoop.simps) simp

lemma titleCaseIdentifierLoop_eq:
  "ident = pre @ rest \<Longrightarrow> lastDot = int (length pre) \<Longrightarrow>
   nextDot = lastDot + int (length (takeWhile (\<lambda>c. c \<noteq> CHR ''.'') rest)) \<Longrightarrow>
   \<exists>w'. titleCaseIdentifierLoop ident lastDot nextDot addDots (buf, w) =
      Inr (buf\<lparr>bytes := bytes buf @ (if addDots then ''.'' else []) @
               joinWith CHR ''.'' (titledAll (titleCaseCache w) (splitOn CHR ''.'' rest))\<rparr>, w') \<and>
      titleCaseCache w' = cacheAfterAll (titleCaseCache w) (splitOn CHR ''.'' rest)"
proof (induction rest arbitrary: pre lastDot nextDot addDots buf w rule: length_induct)
  case (1 rest)
  define frag where "frag = takeWhile (\<lambda>c. c \<noteq> CHR ''.'') rest"
  define r where "r = tl (dropWhile (\<lambda>c. c \<noteq> CHR ''.'') rest)"
  define buf' where "buf' = buf\<lparr>bytes := bytes buf @ (if addDots then ''.'' else []) @
      cachedTitle (titleCaseCache w) frag\<rparr>"
  have nonneg: "0 \<le> nextDot"
    using "1.prems" by simp
  obtain w1 where step: "titleCaseIdentifierStep ident lastDot nextDot addDots (buf, w) =
      Inr ((buf', w1),
           if CHR ''.'' \<in> set rest
           then Some (nextDot + 1, (nextDot + 1) + int (length (takeWhile (\<lambda>c. c \<noteq> CHR ''.'') r)))
           else None)"
    and cache1: "titleCaseCache w1 = cacheAfter (titleCaseCache w) frag"
    using titleCaseIdentifierStep_eq [OF "1.prems", of addDots buf w]
    unfolding frag_def r_def buf'_def by (elim exE conjE)
  have split: "splitOn CHR ''.'' rest =
      frag # (if CHR ''.'' \<in> set rest then splitOn CHR ''.'' r else [])"
    unfolding frag_def r_def by (rule splitOn_takeWhile)
  show ?case
  proof (cases "CHR ''.'' \<in> set rest")
    case False
    have "titleCaseIdentifierLoop ident lastDot nextDot addDots (buf, w) = Inr (buf', w1)"
      using step False by (intro titleCaseIdentifierLoop_break [OF nonneg]) simp
    then show ?thesis
      using False cache1 by (simp add: split buf'_def)
  next
    case True
    from dropWhile_sep [OF True] obtain r' where r': "dropWhile (\<lambda>c. c \<noteq> CHR ''.'') rest = CHR ''.'' # r'"
      by (elim exE)
    have rest: "rest = frag @ CHR ''.'' # r"
      using takeWhile_dropWhile_id [of "\<lambda>c. c \<noteq> CHR ''.''" rest] r'
      by (simp add: frag_def r_def)
    have shorter: "length r < length rest"
      using arg_cong [OF rest, of length] by simp
    have ident': "ident = (pre @ frag @ ''.'') @ r"
      using "1.prems"(1) rest by simp
    have last': "nextDot + 1 = int (length (pre @ frag @ ''.''))"
      using "1.prems"(2,3) by (simp add: frag_def)
    have loop: "titleCaseIdentifierLoop ident lastDot nextDot addDots (buf, w) =
        titleCaseIdentifierLoop ident (nextDot + 1)
          ((nextDot + 1) + int (length (takeWhile (\<lambda>c. c \<noteq> CHR ''.'') r))) True (buf', w1)"
      using step True by (intro titleCaseIdentifierLoop_next [OF nonneg]) simp
    obtain w2 where "titleCaseIdentifierLoop ident (nextDot + 1)
          ((nextDot + 1) + int (length (takeWhile (\<lambda>c. c \<noteq> CHR ''.'') r))) True (buf', w1) =
        Inr (buf'\<lparr>bytes := bytes buf' @ (if True then ''.'' else []) @
               joinWith CHR ''.'' (titledAll (titleCaseCache w1) (splitOn CHR ''.'' r))\<rparr>, w2)"
      and "titleCaseCache w2 = cacheAfterAll (titleCaseCache w1) (splitOn CHR ''.'' r)"
      using "1.IH" [rule_format, OF shorter ident' last' refl, of True buf' w1]
      by (elim exE conjE)
    then show ?thesis
      using True cache1 loop by (simp add: split buf'_def joinWith_Cons)
  qed
qed

lemma TitleCaseIdentifier_eq:
  "\<exists>w'. TitleCaseIdentifier ident w =
      Inr (joinWith CHR ''.'' (titledAll (titleCaseCache w) (splitOn CHR ''.'' ident)), w') \<and>
      titleCaseCache w' = cacheAfterAll (titleCaseCache w) (splitOn CHR ''.'' ident)"
proof (cases "CHR ''.'' \<in> set ident")
  case False
  then have "splitOn CHR ''.'' ident = [ident]"
    by (rule splitOn_no_sep)
  then show ?thesis
    using False TitleCase_eq [of ident w]
    by (auto simp: TitleCaseIdentifier_def IndexByte_eq)
next
  case True
  obtain buf w1 where get: "GetBuffer w = (buf, w1)" "bytes buf = []"
     "titleCaseCache w1 = titleCaseCache w"
    by (simp add: GetBuffer_def)
  have idx: "IndexByte ident CHR ''.'' = int (length (takeWhile (\<lambda>c. c \<noteq> CHR ''.'') ident))"
    using True by (simp add: IndexByte_eq)
  obtain w2 where "titleCaseIdentifierLoop ident 0
        (int (length (takeWhile (\<lambda>c. c \<noteq> CHR ''.'') ident))) False (buf, w1) =
      Inr (buf\<lparr>bytes := bytes buf @ (if False then ''.'' else []) @
               joinWith CHR ''.'' (titledAll (titleCaseCache w1) (splitOn CHR ''.'' ident))\<rparr>, w2)"
    and "titleCaseCache w2 = cacheAfterAll (titleCaseCache w1) (splitOn CHR ''.'' ident)"
    using titleCaseIdentifierLoop_eq [of ident "[]" ident 0 _ False buf w1]
    by (auto simp del: splitOn.simps)
  then show ?thesis
    using get by (simp add: TitleCaseIdentifier_def idx bufString_eq PutBuffer_def)
qed


section \<open>Sound caches and sequences of calls\<close>

lemma cacheSound_afterAll: "cacheSound c \<Longrightarrow> cacheSound (cacheAfterAll c fs)"
  by (induction fs arbitrary: c) (simp_all add: cacheSound_after)


lemma cacheSound_camel: "cacheSound c \<Longrightarrow> cacheSound (camelCache c name)"
  by (simp add: camelCache_def Let_def cacheSound_after)

lemma perform_sound:
  assumes "cacheSound (titleCaseCache w)"
  shows "\<exists>r w'. perform c w = Inr (r, w') \<and> cacheSound (titleCaseCache w')"
proof (cases c)
  case (CallTitleCase n)
  then show ?thesis
    using TitleCase_eq [of n w] assms by (auto simp: cacheSound_after)
next
  case (CallCamelCase n)
  then show ?thesis
    using CamelCase_eq [of n w] assms by (auto simp: cacheSound_camel)
next
  case (CallTitleCaseIdentifier n)
  then show ?thesis
    using TitleCaseIdentifier_eq [of n w] assms by (auto simp: cacheSound_afterAll)
qed

lemma performAll_sound:
  "cacheSound (titleCaseCache w) \<Longrightarrow>
   \<exists>w'. performAll cs w = Inr w' \<and> cacheSound (titleCaseCache w')"
proof (induction cs arbitrary: w)
  case Nil
  then show ?case by simp
next
  case (Cons c cs)
  obtain r w1 where p: "perform c w = Inr (r, w1)" "cacheSound (titleCaseCache w1)"
    using perform_sound [OF Cons.prems, of c] by auto
  then show ?case
    using Cons.IH [of w1] by simp
qed

lemma initWorld_sound: "cacheSound (titleCaseCache initWorld)"
  by (simp add: initWorld_def cacheSound_empty)











section \<open>The words the loop of TitleCase slices\<close>

lemma titleCaseVisits_bounds:
  "titleCaseVisits name s e \<Longrightarrow>
   0 \<le> s \<and> s \<le> e \<and> (s < int (length name) \<longrightarrow> e \<le> int (length name))"
proof (induction rule: titleCaseVisits.induct)
  case first
  then show ?case by simp
next
  case (continue s e s' e')
  then show ?case
    by (auto simp: titleCaseAdvance_def split: if_splits sum.splits)
next
  case (word s e)
  then show ?case by simp
qed

lemma titleCaseAdvance_None:
  assumes "titleCaseAdvance name s e = Inr None" "s < int (length name)" "0 \<le> s" "s \<le> e"
    "e \<le> int (length name)"
  shows "s < e"
proof (cases "e < int (length name)")
  case False
  then show ?thesis using assms by simp
next
  case True
  then have "index name s \<noteq> index name e"
    using assms(1) by (auto simp: titleCaseAdvance_def split: if_splits sum.splits)
  then show ?thesis
    using assms(4) by (cases "s = e") auto
qed

lemma titleCaseVisits_word:
  assumes "titleCaseVisits name s e" "s < int (length name)" "titleCaseAdvance name s e = Inr None"
  shows "\<exists>word c. slice name s e = Inr word \<and> index word 0 = Inr c"
proof -
  have b: "0 \<le> s" "s \<le> e" "e \<le> int (length name)"
    using titleCaseVisits_bounds [OF assms(1)] assms(2) by simp_all
  have "s < e"
    using titleCaseAdvance_None [OF assms(3,2) b] .
  then show ?thesis
    using b by (simp add: slice_def index_def)
qed

lemma titleRender_underscores: "\<forall>c\<in>set n. c = CHR ''_'' \<Longrightarrow> titleRender n = []"
  by (induction n) simp_all

section \<open>The pool's log after a call\<close>

lemma scoped_accesses:
  "l \<in> set held \<Longrightarrow> scoped held (replicate k (Access l) @ es) = scoped held es"
  by (induction k) simp_all

lemma scoped_lease:
  "l \<notin> set held \<Longrightarrow>
   scoped held (Acquire l # replicate k (Access l) @ Release l # es) = scoped held es"
  by (simp add: scoped_accesses)

lemma TitleCase_miss_world:
  assumes "titleCaseCache w n = None"
  shows "\<exists>k. TitleCase n w =
      Inr (titleRender n,
           w\<lparr>titleCaseCache := (titleCaseCache w)(n \<mapsto> titleRender n),
             leases := Suc (leases w),
             poolLog := poolLog w @ Acquire (leases w) #
                          replicate k (Access (leases w)) @ [Release (leases w)]\<rparr>)"
proof -
  define buf where "buf = \<lparr>lease = leases w, bytes = []\<rparr>"
  define w1 where "w1 = w\<lparr>leases := Suc (leases w), poolLog := poolLog w @ [Acquire (leases w)]\<rparr>"
  have get: "GetBuffer w = (buf, w1)"
    by (simp add: GetBuffer_def buf_def w1_def)
  have buf: "bytes buf = []" "lease buf = leases w"
    by (simp_all add: buf_def)
  have cache1: "titleCaseCache w1 = titleCaseCache w"
    by (simp add: w1_def)
  obtain k where loop: "titleCaseLoop n 0 0 (buf, w1) =
      Inr (buf\<lparr>bytes := bytes buf @ titleRender n\<rparr>, accessed buf k w1)"
    using titleCaseLoop_start by blast
  have "TitleCase n w =
      Inr (titleRender n,
           (PutBuffer buf (accessed buf (Suc k) w1))
             \<lparr>titleCaseCache := (titleCaseCache w)(n \<mapsto> titleRender n)\<rparr>)"
    using assms buf
    by (simp add: TitleCase_def get loop bufString_eq PutBuffer_def cache1 replicate_app_Cons_same)
  moreover have "(PutBuffer buf (accessed buf (Suc k) w1))
             \<lparr>titleCaseCache := (titleCaseCache w)(n \<mapsto> titleRender n)\<rparr> =
       w\<lparr>titleCaseCache := (titleCaseCache w)(n \<mapsto> titleRender n),
         leases := Suc (leases w),
         poolLog := poolLog w @ Acquire (leases w) #
                      replicate (Suc k) (Access (leases w)) @ [Release (leases w)]\<rparr>"
    by (simp add: PutBuffer_def accessed_def buf w1_def replicate_app_Cons_same)
  ultimately show ?thesis by metis
qed

lemma TitleCase_log:
  "\<exists>es w'. TitleCase n w = Inr (cachedTitle (titleCaseCache w) n, w') \<and>
     poolLog w' = poolLog w @ es \<and>
     (\<forall>held rest. (\<forall>b\<in>set held. b < leases w) \<longrightarrow>
        scoped held (es @ rest) = scoped held rest)"
proof (cases "titleCaseCache w n")
  case (Some v)
  then have "TitleCase n w = Inr (cachedTitle (titleCaseCache w) n, w) \<and>
     poolLog w = poolLog w @ [] \<and>
     (\<forall>held rest. (\<forall>b\<in>set held. b < leases w) \<longrightarrow>
        scoped held ([] @ rest) = scoped held rest)"
    by (simp add: TitleCase_hit cachedTitle_def)
  then show ?thesis by blast
next
  case None
  obtain k where call: "TitleCase n w =
      Inr (titleRender n,
           w\<lparr>titleCaseCache := (titleCaseCache w)(n \<mapsto> titleRender n),
             leases := Suc (leases w),
             poolLog := poolLog w @ Acquire (leases w) #
                          replicate k (Access (leases w)) @ [Release (leases w)]\<rparr>)"
    using TitleCase_miss_world [OF None] by blast
  define es where "es = Acquire (leases w) # replicate k (Access (leases w)) @ [Release (leases w)]"
  have "scoped held (es @ rest) = scoped held rest" if "\<forall>b\<in>set held. b < leases w"
    for held rest
  proof -
    have "leases w \<notin> set held" using that by auto
    then show ?thesis
      using scoped_lease [of "leases w" held k rest] by (simp add: es_def)
  qed
  then have "TitleCase n w = Inr (cachedTitle (titleCaseCache w) n,
        w\<lparr>titleCaseCache := (titleCaseCache w)(n \<mapsto> titleRender n),
          leases := Suc (leases w), poolLog := poolLog w @ es\<rparr>) \<and>
     poolLog (w\<lparr>titleCaseCache := (titleCaseCache w)(n \<mapsto> titleRender n),
          leases := Suc (leases w), poolLog := poolLog w @ es\<rparr>) = poolLog w @ es \<and>
     (\<forall>held rest. (\<forall>b\<in>set held. b < leases w) \<longrightarrow>
        scoped held (es @ rest) = scoped held rest)"
    using None call by (simp add: cachedTitle_def es_def)
  then show ?thesis by blast
qed

lemma TitleCase_scoped:
  "\<exists>es. poolLogOf (TitleCase n w) = poolLog w @ es \<and> scoped [] es"
proof -
  obtain es w' where call: "TitleCase n w = Inr (cachedTitle (titleCaseCache w) n, w')"
    "poolLog w' = poolLog w @ es"
    and neutral: "\<forall>held rest. (\<forall>b\<in>set held. b < leases w) \<longrightarrow>
      scoped held (es @ rest) = scoped held rest"
    using TitleCase_log [of n w] by blast
  have "scoped [] (es @ []) = scoped [] []"
    using neutral by (intro neutral [rule_format]) simp
  then show ?thesis
    using call by (auto simp: poolLogOf_def)
qed

lemma CamelCase_scoped:
  "\<exists>es. poolLogOf (CamelCase name w) = poolLog w @ es \<and> scoped [] es"
proof -
  define l where "l = leases w"
  define r where "r = dropWhile (\<lambda>x. x = CHR ''_'') name"
  define buf where "buf = \<lparr>lease = l, bytes = []\<rparr>"
  define w1 where "w1 = w\<lparr>leases := Suc l, poolLog := poolLog w @ [Acquire l]\<rparr>"
  have get: "GetBuffer w = (buf, w1)"
    by (simp add: GetBuffer_def buf_def w1_def l_def)
  have buf: "lease buf = l"
    by (simp add: buf_def)
  have w1: "poolLog w1 = poolLog w @ [Acquire l]" "leases w1 = Suc l"
    by (simp_all add: w1_def)
  have scan1: "camelCaseScan (\<lambda>c. c \<noteq> CHR ''_'') name 0 =
      Inr (if r \<noteq> [] then int (length (takeWhile (\<lambda>x. x = CHR ''_'') name)) else - 1)"
    by (simp add: camelCaseScan_start r_def)
  have sl: "slice name (int (length (takeWhile (\<lambda>x. x = CHR ''_'') name))) (int (length name)) =
      Inr r"
    unfolding r_def by (rule slice_suffix)
  have scan2: "camelCaseScan (\<lambda>c. c = CHR ''_'') r 0 =
      Inr (if CHR ''_'' \<in> set r then int (length (takeWhile (\<lambda>c. c \<noteq> CHR ''_'') r)) else - 1)"
    by (simp add: camelCaseScan_start)
  show ?thesis
  proof (cases "r = []")
    case True
    then have "poolLogOf (CamelCase name w) = poolLog w @ [Acquire l, Release l]"
      using buf w1 by (simp add: CamelCase_def get scan1 PutBuffer_def poolLogOf_def)
    then show ?thesis by simp
  next
    case False
    show ?thesis
    proof (cases "CHR ''_'' \<in> set r")
      case under: False
      have "poolLogOf (CamelCase name w) =
          poolLog w @ [Acquire l, Access l, Access l, Release l]"
        using False under buf w1
        by (simp add: CamelCase_def get scan1 sl scan2 camelCaseWrite_plain bufString_eq
            PutBuffer_def poolLogOf_def)
      then show ?thesis by simp
    next
      case True
      let ?first = "takeWhile (\<lambda>c. c \<noteq> CHR ''_'') r"
      have s2: "slice r (int (length ?first) + 1) (int (length r)) = Inr (camelRest r)"
        unfolding camelRest_def using True by (intro slice_suffix_tl) auto
      obtain es w3 where tc: "TitleCase (camelRest r) (accessed buf (Suc 0) w1) =
          Inr (cachedTitle (titleCaseCache (accessed buf (Suc 0) w1)) (camelRest r), w3)"
        "poolLog w3 = poolLog (accessed buf (Suc 0) w1) @ es"
        "\<forall>held rest. (\<forall>b\<in>set held. b < leases (accessed buf (Suc 0) w1)) \<longrightarrow>
           scoped held (es @ rest) = scoped held rest"
        using TitleCase_log [of "camelRest r" "accessed buf (Suc 0) w1"] by blast
      have inner: "scoped [l] (es @ [Access l, Access l, Release l]) =
          scoped [l] [Access l, Access l, Release l]"
        using w1 by (intro tc(3) [rule_format]) simp
      have "poolLogOf (CamelCase name w) =
          poolLog w3 @ [Access l, Access l, Release l]"
        using False True buf
        by (simp add: CamelCase_def get scan1 sl scan2 camelCaseWrite_def slice_prefix s2 tc(1)
            bufWrite_eq bufString_eq PutBuffer_def poolLogOf_def)
      then have "poolLogOf (CamelCase name w) =
          poolLog w @ [Acquire l, Access l] @ es @ [Access l, Access l, Release l]"
        using tc(2) w1 buf by simp
      moreover have "scoped [] ([Acquire l, Access l] @ es @ [Access l, Access l, Release l])"
      proof -
        have "scoped [l] (es @ [Access l, Access l, Release l])"
          using inner by simp
        then show ?thesis by simp
      qed
      ultimately show ?thesis by blast
    qed
  qed
qed

lemma scoped_release_access: "\<not> scoped held (log @ [Release l, Access l])"
proof (induction log arbitrary: held)
  case Nil
  then show ?case by simp
next
  case (Cons ev log)
  then show ?case by (cases ev) simp_all
qed

lemma TitleCaseIdentifier_log:
  assumes "CHR ''.'' \<in> set ident"
  shows "\<exists>log. poolLogOf (TitleCaseIdentifier ident w) =
           log @ [Release (leases w), Access (leases w)]"
proof -
  obtain buf w1 where get: "GetBuffer w = (buf, w1)" "lease buf = leases w"
    by (simp add: GetBuffer_def)
  have idx: "IndexByte ident CHR ''.'' = int (length (takeWhile (\<lambda>c. c \<noteq> CHR ''.'') ident))"
    using assms by (simp add: IndexByte_eq)
  obtain w2 where "titleCaseIdentifierLoop ident 0
        (int (length (takeWhile (\<lambda>c. c \<noteq> CHR ''.'') ident))) False (buf, w1) =
      Inr (buf\<lparr>bytes := bytes buf @ (if False then ''.'' else []) @
               joinWith CHR ''.'' (titledAll (titleCaseCache w1) (splitOn CHR ''.'' ident))\<rparr>, w2)"
    using titleCaseIdentifierLoop_eq [of ident "[]" ident 0 _ False buf w1]
    by (auto simp del: splitOn.simps)
  then have "poolLogOf (TitleCaseIdentifier ident w) =
      poolLog w2 @ [Release (leases w), Access (leases w)]"
    using get
    by (simp add: TitleCaseIdentifier_def idx bufString_def PutBuffer_def poolLogOf_def)
  then show ?thesis by blast
qed

section \<open>The claims\<close>

lemma segmentWords_nonempty: "word \<in> set (segmentWords n) \<Longrightarrow> word \<noteq> []"
  by (simp add: segmentWords_def)

text \<open>
  C3. Every word the segmenter produces is non-empty, and the Case Renderer takes the
  all-uppercase branch exactly when the word's alphabetic prefix (the part before its
  first digit, or the whole word) is one of guid, id, uid, uuid, or the word contains
  none of the vowels a, e, i, o, u, y. On that branch it writes the word with every ASCII
  lowercase letter converted to uppercase and every other byte unchanged; otherwise it
  writes the word with its first character converted to uppercase when that is an ASCII
  lowercase letter, and the word unchanged when it is not.
\<close>

theorem caseRenderer_paths:
  assumes "word \<in> set (segmentWords n)"
  shows "word \<noteq> [] \<and>
    titleCaseAcronym word =
      Inr (alphabeticPrefix word \<in> {''guid'', ''id'', ''uid'', ''uuid''} \<or> \<not> list_ex isVowel word) \<and>
    (\<exists>k. titleCaseWord word (buf, w) =
       Inr (buf\<lparr>bytes := bytes buf @
              (if alphabeticPrefix word \<in> {''guid'', ''id'', ''uid'', ''uuid''} \<or> \<not> list_ex isVowel word
               then map toUpper word
               else if isLower (hd word) then toUpper (hd word) # tl word
               else word)\<rparr>,
            accessed buf k w))"
proof -
  have ne: "word \<noteq> []"
    using assms by (rule segmentWords_nonempty)
  then have "caseRender word =
      (if alphabeticPrefix word \<in> {''guid'', ''id'', ''uid'', ''uuid''} \<or> \<not> list_ex isVowel word
       then map toUpper word
       else if isLower (hd word) then toUpper (hd word) # tl word
       else word)"
    by (cases word) (simp_all add: caseRender_def acronymWord_def capitalize_def uppercaseTokens_def)
  then show ?thesis
    using ne titleCaseWord_eq [of word buf w] titleCaseAcronym_eq [of word]
    by (simp add: acronymWord_def uppercaseTokens_def)
qed

lemma segmentWords_example:
  "segmentWords ''column_name_id'' = [''column'', ''name'', ''id'']"
  by (simp add: segmentWords_def)

theorem caseRenderer_paths_witness:
  "''id'' \<in> set (segmentWords ''column_name_id'') \<and>
   titleCaseAcronym ''id'' = Inr True \<and>
   (\<exists>k. titleCaseWord ''id'' (\<lparr>lease = 0, bytes = ''ColumnName''\<rparr>, initWorld) =
      Inr (\<lparr>lease = 0, bytes = ''ColumnNameID''\<rparr>,
           accessed \<lparr>lease = 0, bytes = ''ColumnName''\<rparr> k initWorld))"
  using caseRenderer_paths [of "''id''" "''column_name_id''"
      "\<lparr>lease = 0, bytes = ''ColumnName''\<rparr>" initWorld]
  by (simp add: segmentWords_example alphabeticPrefix_def isDigit_def isVowel_def toUpper_def)

text \<open>
  C4. For every input that is not in the cache, TitleCase returns the concatenation,
  with no separator, of the rendered forms of the input's maximal underscore-free
  words, left to right (every underscore is dropped), and stores that string in the
  cache under the input. The witness is the case \<open>TitleCase("column_name_id") =
  "ColumnNameID"\<close>.
\<close>
theorem TitleCase_miss_renders:
  assumes "titleCaseCache w n = None"
  shows "\<exists>w'. TitleCase n w = Inr (concat (map caseRender (segmentWords n)), w') \<and>
           titleCaseCache w' = (titleCaseCache w)(n \<mapsto> concat (map caseRender (segmentWords n)))"
  using TitleCase_miss [OF assms] by (auto simp: titleRender_def)

theorem TitleCase_miss_renders_witness:
  "titleCaseCache initWorld ''column_name_id'' = None \<and>
   segmentWords ''column_name_id'' = [''column'', ''name'', ''id''] \<and>
   map caseRender [''column'', ''name'', ''id''] = [''Column'', ''Name'', ''ID''] \<and>
   (\<exists>w'. TitleCase ''column_name_id'' initWorld = Inr (''ColumnNameID'', w') \<and>
      titleCaseCache w' ''column_name_id'' = Some ''ColumnNameID'')"
proof -
  have miss: "titleCaseCache initWorld ''column_name_id'' = None"
    by (simp add: initWorld_def)
  have words: "segmentWords ''column_name_id'' = [''column'', ''name'', ''id'']"
    by code_simp
  have rendered: "map caseRender [''column'', ''name'', ''id''] = [''Column'', ''Name'', ''ID'']"
    by code_simp
  show ?thesis
    using TitleCase_miss_renders [OF miss] miss words rendered by auto
qed

text \<open>
  C2, as stated, fails: \<open>TitleCase("xyz")\<close> is \<open>"Xyz"\<close>, not \<open>"XYZ"\<close>, because \<open>y\<close> is one
  of the bytes the vowel test of line 205 looks for.
\<close>
theorem TitleCase_xyz_counterexample:
  "returned (TitleCase ''xyz'' initWorld) = Inr ''Xyz'' \<and>
   returned (TitleCase ''xyz'' initWorld) \<noteq> Inr ''XYZ''"
proof -
  have "titleRender ''xyz'' = ''Xyz''" by code_simp
  then show ?thesis
    by (simp add: returned_TitleCase initWorld_def cachedTitle_def)
qed

text \<open>
  C2, amended. \<open>TitleCase("xyz")\<close> returns \<open>"Xyz"\<close>: the word contains the vowel \<open>y\<close>, so
  it takes the normal path. A word that contains none of a, e, i, o, u, y is rendered
  fully uppercase by the no-vowel heuristic.
\<close>
theorem TitleCase_y_is_vowel:
  assumes "cacheSound (titleCaseCache w)"
  shows "returned (TitleCase ''xyz'' w) = Inr ''Xyz'' \<and> list_ex isVowel ''xyz'' \<and>
    (n \<noteq> [] \<and> CHR ''_'' \<notin> set n \<and> \<not> list_ex isVowel n \<longrightarrow>
       returned (TitleCase n w) = Inr (map toUpper n))"
proof -
  have "titleRender ''xyz'' = ''Xyz''" by code_simp
  moreover have "list_ex isVowel ''xyz''" by code_simp
  moreover have "titleRender n = map toUpper n"
    if "n \<noteq> []" "CHR ''_'' \<notin> set n" "\<not> list_ex isVowel n"
    using that by (simp add: titleRender_word caseRender_def acronymWord_def)
  ultimately show ?thesis
    using assms by (simp add: returned_TitleCase cachedTitle_sound)
qed

theorem TitleCase_y_is_vowel_witness:
  "cacheSound (titleCaseCache initWorld) \<and>
   returned (TitleCase ''xyz'' initWorld) = Inr ''Xyz'' \<and>
   \<not> list_ex isVowel ''xz'' \<and> returned (TitleCase ''xz'' initWorld) = Inr ''XZ''"
proof -
  have "''xz'' \<noteq> [] \<and> CHR ''_'' \<notin> set ''xz'' \<and> \<not> list_ex isVowel ''xz''" by code_simp
  moreover have "map toUpper ''xz'' = ''XZ''" by code_simp
  ultimately show ?thesis
    using TitleCase_y_is_vowel [OF initWorld_sound, of "''xz''"] initWorld_sound by simp
qed

text \<open>
  C10. The vowel test looks for the lowercase bytes a, e, i, o, u, y only. So a word with
  none of them takes the all-uppercase branch, and is written with every ASCII lowercase
  letter converted to uppercase; a word with no lowercase letter at all (its letters,
  vowels such as A and I included, are uppercase) is such a word and is written
  unchanged; and \<open>TitleCase("Abc")\<close> is \<open>"ABC"\<close>.
\<close>
theorem uppercase_vowels_are_not_vowels:
  "(\<not> list_ex isVowel word \<longrightarrow>
      titleCaseAcronym word = Inr True \<and>
      (\<exists>k. titleCaseWord word (buf, w) =
         Inr (buf\<lparr>bytes := bytes buf @ map toUpper word\<rparr>, accessed buf k w))) \<and>
   (\<not> list_ex isLower word \<longrightarrow> \<not> list_ex isVowel word \<and> map toUpper word = word) \<and>
   (cacheSound (titleCaseCache w) \<longrightarrow> returned (TitleCase ''Abc'' w) = Inr ''ABC'')"
proof -
  have vowel_lower: "isLower c" if "isVowel c" for c
    using that by (auto simp: isVowel_def isLower_def)
  have a: "titleCaseAcronym word = Inr True \<and>
      (\<exists>k. titleCaseWord word (buf, w) =
         Inr (buf\<lparr>bytes := bytes buf @ map toUpper word\<rparr>, accessed buf k w))"
    if "\<not> list_ex isVowel word"
    using that titleCaseWord_eq [of word buf w]
    by (simp add: titleCaseAcronym_eq acronymWord_def caseRender_def)
  have b: "\<not> list_ex isVowel word \<and> map toUpper word = word" if "\<not> list_ex isLower word"
    using that vowel_lower by (auto simp: list_ex_iff toUpper_other intro: map_idI)
  have "titleRender ''Abc'' = ''ABC''" by code_simp
  then have c: "returned (TitleCase ''Abc'' w) = Inr ''ABC''" if "cacheSound (titleCaseCache w)"
    using that by (simp add: returned_TitleCase cachedTitle_sound)
  show ?thesis
    using a b c by blast
qed

theorem uppercase_vowels_are_not_vowels_witness:
  "\<not> list_ex isVowel ''AI9'' \<and> \<not> list_ex isLower ''AI9'' \<and>
   titleCaseAcronym ''AI9'' = Inr True \<and> map toUpper ''AI9'' = ''AI9'' \<and>
   cacheSound (titleCaseCache initWorld) \<and> returned (TitleCase ''Abc'' initWorld) = Inr ''ABC''"
proof -
  have "\<not> list_ex isVowel ''AI9''" "\<not> list_ex isLower ''AI9''" by code_simp+
  then show ?thesis
    using uppercase_vowels_are_not_vowels [of "''AI9''" "\<lparr>lease = 0, bytes = []\<rparr>" initWorld] initWorld_sound
    by simp
qed



text \<open>
  C6. CamelCase strips the leading underscores. If nothing remains it returns the empty
  string; if the remainder has no underscore it returns the remainder unchanged;
  otherwise it returns the part before the first remaining underscore unchanged,
  followed directly by TitleCase of the part after that underscore. In particular
  \<open>CamelCase("var_name_id")\<close> is \<open>"varNameID"\<close>.
\<close>
theorem CamelCase_cases:
  "(dropWhile (\<lambda>c. c = CHR ''_'') name = [] \<longrightarrow> returned (CamelCase name w) = Inr []) \<and>
   (CHR ''_'' \<notin> set (dropWhile (\<lambda>c. c = CHR ''_'') name) \<longrightarrow>
      returned (CamelCase name w) = Inr (dropWhile (\<lambda>c. c = CHR ''_'') name)) \<and>
   (CHR ''_'' \<in> set (dropWhile (\<lambda>c. c = CHR ''_'') name) \<longrightarrow>
      (\<exists>titled. returned (TitleCase (tl (dropWhile (\<lambda>c. c \<noteq> CHR ''_'')
                   (dropWhile (\<lambda>c. c = CHR ''_'') name))) w) = Inr titled \<and>
         returned (CamelCase name w) =
           Inr (takeWhile (\<lambda>c. c \<noteq> CHR ''_'') (dropWhile (\<lambda>c. c = CHR ''_'') name) @ titled))) \<and>
   (cacheSound (titleCaseCache w) \<longrightarrow> returned (CamelCase ''var_name_id'' w) = Inr ''varNameID'')"
proof -
  define r where "r = dropWhile (\<lambda>c. c = CHR ''_'') name"
  have ret: "returned (CamelCase n w) = Inr (camelRender (titleCaseCache w) n)" for n
    using CamelCase_eq [of n w] by auto
  have render: "camelRender (titleCaseCache w) name =
      (if CHR ''_'' \<in> set r
       then takeWhile (\<lambda>x. x \<noteq> CHR ''_'') r @
            cachedTitle (titleCaseCache w) (tl (dropWhile (\<lambda>c. c \<noteq> CHR ''_'') r))
       else r)"
    by (simp add: camelRender_def camelRest_def r_def Let_def)
  have c1: "r = [] \<longrightarrow> returned (CamelCase name w) = Inr []"
    by (simp add: ret render)
  have c2: "CHR ''_'' \<notin> set r \<longrightarrow> returned (CamelCase name w) = Inr r"
    by (simp add: ret render)
  have c3: "CHR ''_'' \<in> set r \<longrightarrow>
      (\<exists>titled. returned (TitleCase (tl (dropWhile (\<lambda>c. c \<noteq> CHR ''_'') r)) w) = Inr titled \<and>
         returned (CamelCase name w) = Inr (takeWhile (\<lambda>c. c \<noteq> CHR ''_'') r @ titled))"
    by (simp add: ret render returned_TitleCase)
  have "camelRender c ''var_name_id'' = ''var'' @ cachedTitle c ''name_id''" for c
    by (simp add: camelRender_def camelRest_def)
  moreover have "titleRender ''name_id'' = ''NameID''" by code_simp
  ultimately have c4: "cacheSound (titleCaseCache w) \<longrightarrow>
      returned (CamelCase ''var_name_id'' w) = Inr ''varNameID''"
    by (simp add: ret cachedTitle_sound)
  show ?thesis
    using c1 c2 c3 c4 unfolding r_def by (intro conjI)
qed

theorem CamelCase_cases_witness:
  "dropWhile (\<lambda>c. c = CHR ''_'') ''___'' = [] \<and> returned (CamelCase ''___'' initWorld) = Inr [] \<and>
   CHR ''_'' \<notin> set (dropWhile (\<lambda>c. c = CHR ''_'') ''__noUnderscore'') \<and>
   returned (CamelCase ''__noUnderscore'' initWorld) = Inr ''noUnderscore'' \<and>
   CHR ''_'' \<in> set (dropWhile (\<lambda>c. c = CHR ''_'') ''_var_name_id'') \<and>
   returned (TitleCase ''name_id'' initWorld) = Inr ''NameID'' \<and>
   returned (CamelCase ''_var_name_id'' initWorld) = Inr ''varNameID'' \<and>
   cacheSound (titleCaseCache initWorld) \<and>
   returned (CamelCase ''var_name_id'' initWorld) = Inr ''varNameID''"
proof -
  have "returned (TitleCase ''name_id'' initWorld) = Inr ''NameID''" by code_simp
  then show ?thesis
    using CamelCase_cases [of "''___''" initWorld] CamelCase_cases [of "''__noUnderscore''" initWorld]
      CamelCase_cases [of "''_var_name_id''" initWorld] initWorld_sound
    by simp
qed

text \<open>
  C8. After any sequence of calls to TitleCase, CamelCase and TitleCaseIdentifier from
  the initial state, a call \<open>TitleCase(x)\<close> returns the string a fresh computation
  produces for \<open>x\<close>, whatever the sequence was; and every entry of the cache maps its key
  to the string a fresh computation produces for that key.
\<close>
theorem TitleCase_deterministic:
  "\<exists>w. performAll calls initWorld = Inr w \<and>
        returned (TitleCase x w) = titleCaseFresh x \<and>
        (\<exists>r. titleCaseFresh x = Inr r) \<and>
        (\<forall>n v. titleCaseCache w n = Some v \<longrightarrow> titleCaseFresh n = Inr v)"
proof -
  obtain w where w: "performAll calls initWorld = Inr w" "cacheSound (titleCaseCache w)"
    using performAll_sound [OF initWorld_sound, of calls] by blast
  have "returned (TitleCase x w) = titleCaseFresh x"
    using w(2) by (simp add: returned_TitleCase cachedTitle_sound titleCaseFresh_eq)
  then show ?thesis
    using w by (auto simp: titleCaseFresh_eq cacheSound_def)
qed

theorem TitleCase_deterministic_witness:
  "\<exists>w. performAll [CallTitleCase ''id'', CallCamelCase ''a_b'', CallTitleCaseIdentifier ''x.id'',
                     CallTitleCase ''id''] initWorld = Inr w \<and>
        returned (TitleCase ''id'' w) = Inr ''ID'' \<and> titleCaseCache w ''id'' = Some ''ID''"
proof -
  have fresh: "titleCaseFresh ''id'' = Inr ''ID''" by code_simp
  obtain w where w: "performAll [CallTitleCase ''id'', CallCamelCase ''a_b'',
        CallTitleCaseIdentifier ''x.id'', CallTitleCase ''id''] initWorld = Inr w"
      "returned (TitleCase ''id'' w) = titleCaseFresh ''id''"
    using TitleCase_deterministic [of "[CallTitleCase ''id'', CallCamelCase ''a_b'',
        CallTitleCaseIdentifier ''x.id'', CallTitleCase ''id'']" "''id''"] by blast
  have "map_sum id (\<lambda>w. titleCaseCache w ''id'') (performAll [CallTitleCase ''id'',
      CallCamelCase ''a_b'', CallTitleCaseIdentifier ''x.id'', CallTitleCase ''id''] initWorld) =
      Inr (Some ''ID'')"
    by code_simp
  then show ?thesis
    using w fresh by auto
qed

text \<open>
  C9. TitleCase, CamelCase and TitleCaseIdentifier return a string for every input and
  every state: no index or slice expression of theirs panics. TitleCase of an empty or
  all-underscore input is the empty string (in a state whose cache holds only
  TitleCase's own results). And at every cursor pair where the loop of TitleCase slices
  a word, the slice is in range and the word has a first byte: the segmenter never
  yields an empty word.
\<close>
theorem case_conversion_total:
  "(\<exists>r w'. TitleCase n w = Inr (r, w')) \<and>
   (\<exists>r w'. CamelCase n w = Inr (r, w')) \<and>
   (\<exists>r w'. TitleCaseIdentifier n w = Inr (r, w')) \<and>
   (cacheSound (titleCaseCache w) \<and> (\<forall>c\<in>set n. c = CHR ''_'') \<longrightarrow>
      returned (TitleCase n w) = Inr []) \<and>
   (titleCaseVisits name s e \<and> s < int (length name) \<and> titleCaseAdvance name s e = Inr None \<longrightarrow>
      (\<exists>word c. slice name s e = Inr word \<and> index word 0 = Inr c))"
proof -
  have "\<exists>r w'. TitleCase n w = Inr (r, w')"
    using TitleCase_eq [of n w] by blast
  moreover have "\<exists>r w'. CamelCase n w = Inr (r, w')"
    using CamelCase_eq [of n w] by blast
  moreover have "\<exists>r w'. TitleCaseIdentifier n w = Inr (r, w')"
    using TitleCaseIdentifier_eq [of n w] by blast
  moreover have "returned (TitleCase n w) = Inr []"
    if "cacheSound (titleCaseCache w)" "\<forall>c\<in>set n. c = CHR ''_''"
    using that by (simp add: returned_TitleCase cachedTitle_sound titleRender_underscores)
  ultimately show ?thesis
    using titleCaseVisits_word [of name s e] by blast
qed

theorem case_conversion_total_witness:
  "(\<exists>r w'. TitleCase ''__'' initWorld = Inr (r, w')) \<and>
   (\<exists>r w'. CamelCase ''__'' initWorld = Inr (r, w')) \<and>
   (\<exists>r w'. TitleCaseIdentifier ''__'' initWorld = Inr (r, w')) \<and>
   cacheSound (titleCaseCache initWorld) \<and> returned (TitleCase ''__'' initWorld) = Inr [] \<and>
   titleCaseVisits ''_a'' 1 2 \<and> titleCaseAdvance ''_a'' 1 2 = Inr None \<and>
   (\<exists>word c. slice ''_a'' 1 2 = Inr word \<and> index word 0 = Inr c)"
proof -
  have a0: "titleCaseAdvance ''_a'' 0 0 = Inr (Some (1, 1))"
    by (simp add: titleCaseAdvance_def index_def)
  have a1: "titleCaseAdvance ''_a'' 1 1 = Inr (Some (1, 2))"
    by (simp add: titleCaseAdvance_def index_def)
  have a2: "titleCaseAdvance ''_a'' 1 2 = Inr None"
    by (simp add: titleCaseAdvance_def)
  have v1: "titleCaseVisits ''_a'' 1 1"
    using titleCaseVisits.continue [OF titleCaseVisits.first _ a0] by simp
  have v2: "titleCaseVisits ''_a'' 1 2"
    using titleCaseVisits.continue [OF v1 _ a1] by simp
  show ?thesis
    using case_conversion_total [of "''__''" initWorld "''_a''" 1 2] initWorld_sound v2 a2
    by simp
qed

text \<open>
  C7, as stated, fails: with a negative \<open>start\<close> or \<open>group\<close> the helpers do not abort, they
  format the negative numbers.
\<close>
theorem helpers_negative_start_counterexample:
  "\<not> isPanic (Placeholders 2 (- 1) 1 initWorld) \<and>
   returned (Placeholders 2 (- 1) 1 initWorld) = Inr ''$-1,$0'' \<and>
   \<not> isPanic (Placeholders 2 1 (- 1) initWorld) \<and>
   returned (Placeholders 2 1 (- 1) initWorld) = Inr ''$1,$2'' \<and>
   \<not> isPanic (WhereClause (- 1) [''a''] initWorld) \<and>
   returned (WhereClause (- 1) [''a''] initWorld) = Inr (CHR 0x22 # ''a'' @ CHR 0x22 # ''=$-1'')"
  by code_simp

text \<open>
  C7, amended. \<open>Placeholders(count, start, group)\<close> aborts exactly when \<open>start\<close> or
  \<open>group\<close> is zero, and \<open>WhereClause(start, cols)\<close> exactly when \<open>start\<close> is zero; a
  call that aborts returns no output.
\<close>
theorem helpers_panic_on_zero:
  "isPanic (Placeholders count start group' w) = (start = 0 \<or> group' = 0) \<and>
   isPanic (WhereClause start cols w) = (start = 0)"
  by (simp add: isPanic_def Placeholders_def WhereClause_def split: prod.splits)

theorem helpers_panic_on_zero_witness:
  "isPanic (Placeholders 3 0 1 initWorld) \<and> isPanic (Placeholders 3 1 0 initWorld) \<and>
   isPanic (WhereClause 0 [''a''] initWorld) \<and>
   \<not> isPanic (Placeholders 3 (- 2) (- 1) initWorld) \<and>
   \<not> isPanic (WhereClause (- 2) [''a''] initWorld)"
  using helpers_panic_on_zero [of 3 0 1 initWorld "[''a'']"]
    helpers_panic_on_zero [of 3 1 0 initWorld "[''a'']"]
    helpers_panic_on_zero [of 3 "- 2" "- 1" initWorld "[''a'']"]
  by simp

text \<open>
  C5 holds of TitleCase and of CamelCase: the events a call adds to the pool's log keep
  the discipline of scoped acquisition (a buffer that is acquired is released once, and
  no access follows its release). It fails on the code of TitleCaseIdentifier: for
  every input that contains a dot, the call releases its buffer and reads it afterwards
  (the last two events of the log), so the log does not keep the discipline, whatever
  leases were held before. On the input \<open>a.b\<close> the log is the one given.
\<close>
theorem TitleCaseIdentifier_reads_after_release:
  "(\<exists>es. poolLogOf (TitleCase n w) = poolLog w @ es \<and> scoped [] es) \<and>
   (\<exists>es. poolLogOf (CamelCase n w) = poolLog w @ es \<and> scoped [] es) \<and>
   (CHR ''.'' \<in> set ident \<longrightarrow>
      (\<exists>log. poolLogOf (TitleCaseIdentifier ident w) =
             log @ [Release (leases w), Access (leases w)]) \<and>
      \<not> scoped held (poolLogOf (TitleCaseIdentifier ident w))) \<and>
   poolLogOf (TitleCaseIdentifier ''a.b'' initWorld) =
     [Acquire 0, Acquire 1, Access 1, Access 1, Access 1, Release 1, Access 0,
      Acquire 2, Access 2, Access 2, Release 2, Access 0, Access 0, Release 0, Access 0]"
proof -
  have "\<not> scoped held (poolLogOf (TitleCaseIdentifier ident w))" if "CHR ''.'' \<in> set ident"
    using TitleCaseIdentifier_log [OF that, of w] scoped_release_access by auto
  moreover have "poolLogOf (TitleCaseIdentifier ''a.b'' initWorld) =
     [Acquire 0, Acquire 1, Access 1, Access 1, Access 1, Release 1, Access 0,
      Acquire 2, Access 2, Access 2, Release 2, Access 0, Access 0, Release 0, Access 0]"
    by code_simp
  ultimately show ?thesis
    using TitleCaseIdentifier_log [of ident w] TitleCase_scoped [of n w] CamelCase_scoped [of n w]
    by blast
qed

theorem TitleCaseIdentifier_reads_after_release_witness:
  "CHR ''.'' \<in> set ''a.b'' \<and>
   (\<exists>log. poolLogOf (TitleCaseIdentifier ''a.b'' initWorld) = log @ [Release 0, Access 0]) \<and>
   \<not> scoped [] (poolLogOf (TitleCaseIdentifier ''a.b'' initWorld)) \<and>
   (\<exists>es. poolLogOf (TitleCase ''a_b'' initWorld) = es \<and> scoped [] es) \<and>
   (\<exists>es. poolLogOf (CamelCase ''a_b'' initWorld) = es \<and> scoped [] es)"
  using TitleCaseIdentifier_reads_after_release [of "''a_b''" initWorld "''a.b''" "[]"]
  by (simp add: initWorld_def)

end
